theory Spec2Isabelle
  imports Main "HOL-Library.Word" "HOL-Library.Signed_Division"
begin

unbundle bit_operations_syntax

section \<open>Failures of the program as values\<close>

text \<open>
  The program (sudoku.cpp) can stop in three ways: an \<open>assert\<close> fails (builds without
  \<open>-DNDEBUG\<close>), the C++ standard gives the step no meaning (an array subscript outside the
  array, a shift count outside the width, a signed overflow), or \<open>main\<close> throws
  \<open>std::runtime_error\<close>. The header of the source documents both builds, so every
  function that asserts takes the flag \<open>ndebug\<close>.
\<close>

datatype assertion = PosInRange | DigInRange | RowInRange | ColInRange

datatype undefined_behaviour = ArrayIndex | ShiftCount | SignedOverflow

datatype error =
    AssertionFailed assertion
  | UndefinedBehaviour undefined_behaviour
  | RuntimeError string

definition and_then :: "error + 'a \<Rightarrow> ('a \<Rightarrow> error + 'b) \<Rightarrow> error + 'b" where
  "and_then m f = (case m of Inl e \<Rightarrow> Inl e | Inr x \<Rightarrow> f x)"

definition check_assert :: "bool \<Rightarrow> assertion \<Rightarrow> bool \<Rightarrow> error + unit" where
  "check_assert ndebug a c = (if ndebug \<or> c then Inr () else Inl (AssertionFailed a))"

text \<open>A counted \<open>for\<close> loop over the values of its index, threading the state.\<close>

fun for_loop :: "int list \<Rightarrow> (int \<Rightarrow> 's \<Rightarrow> error + 's) \<Rightarrow> 's \<Rightarrow> error + 's" where
  "for_loop [] body s = Inr s"
| "for_loop (i # rest) body s = and_then (body i s) (for_loop rest body)"

section \<open>Cell\<close>

text \<open>
  The fields \<open>assigned_\<close> and \<open>assignable_\<close> of the source, without the trailing
  underscore (not a legal name here).
\<close>

record Cell =
  assigned :: int
  assignable :: "32 word"

text \<open>
  \<open>1 << dig\<close> on a 32-bit \<open>int\<close>: meaningful for a count in 0..31 (the count 31
  gives the sign bit, which converts to the same bit of \<open>unsigned\<close>).
\<close>

definition shift_one :: "int \<Rightarrow> error + 32 word" where
  "shift_one dig =
     (if 0 \<le> dig \<and> dig < 32 then Inr (push_bit (nat dig) 1)
      else Inl (UndefinedBehaviour ShiftCount))"

definition Cell_assignable :: "Cell \<Rightarrow> bool" where
  "Cell_assignable c = (assignable c \<noteq> 0)"

definition Cell_assignable_dig :: "bool \<Rightarrow> Cell \<Rightarrow> int \<Rightarrow> error + bool" where
  "Cell_assignable_dig ndebug c dig =
     and_then (check_assert ndebug DigInRange (1 \<le> dig \<and> dig \<le> 9)) (\<lambda>_.
     and_then (shift_one dig) (\<lambda>m.
     Inr (assignable c AND m \<noteq> 0)))"

definition Cell_cant_assign :: "bool \<Rightarrow> Cell \<Rightarrow> int \<Rightarrow> error + Cell" where
  "Cell_cant_assign ndebug c dig =
     and_then (check_assert ndebug DigInRange (1 \<le> dig \<and> dig \<le> 9)) (\<lambda>_.
     and_then (shift_one dig) (\<lambda>m.
     Inr (c\<lparr>assignable := assignable c AND NOT m\<rparr>)))"

definition Cell_init :: Cell where
  "Cell_init =
     \<lparr>assigned = 0,
      assignable = push_bit 9 1 OR push_bit 8 1 OR push_bit 7 1 OR push_bit 6 1 OR
                   push_bit 5 1 OR push_bit 4 1 OR push_bit 3 1 OR push_bit 2 1 OR
                   push_bit 1 1\<rparr>"

section \<open>Board\<close>

text \<open>
  The array \<open>Cell cells[num_cells]\<close> is a total map from indices to cells; only the
  indices below \<open>num_cells\<close> belong to the array, and every subscript is checked against
  that bound before the map is read or written.
\<close>

record Board =
  cells :: "nat \<Rightarrow> Cell"

definition num_cells :: int where
  "num_cells = 9 * 9"

definition Board_init :: Board where
  "Board_init = \<lparr>cells = (\<lambda>_. Cell_init)\<rparr>"

definition subscript :: "int \<Rightarrow> error + nat" where
  "subscript i =
     (if 0 \<le> i \<and> i < num_cells then Inr (nat i) else Inl (UndefinedBehaviour ArrayIndex))"

text \<open>The two overloads of \<open>Board::cell\<close> return a reference: here, the index.\<close>

definition Board_cell :: "bool \<Rightarrow> int \<Rightarrow> error + nat" where
  "Board_cell ndebug pos =
     and_then (check_assert ndebug PosInRange (0 \<le> pos \<and> pos < num_cells)) (\<lambda>_.
     subscript pos)"

definition Board_cell_rc :: "bool \<Rightarrow> int \<Rightarrow> int \<Rightarrow> error + nat" where
  "Board_cell_rc ndebug row col =
     and_then (check_assert ndebug RowInRange (0 \<le> row \<and> row < 9)) (\<lambda>_.
     and_then (check_assert ndebug ColInRange (0 \<le> col \<and> col < 9)) (\<lambda>_.
     subscript (row * 9 + col)))"

text \<open>\<open>cell(r, c).cant_assign(dig)\<close>: the call through the reference updates the array.\<close>

definition cant_assign_at :: "bool \<Rightarrow> int \<Rightarrow> int \<Rightarrow> int \<Rightarrow> Board \<Rightarrow> error + Board" where
  "cant_assign_at ndebug dig row col b =
     and_then (Board_cell_rc ndebug row col) (\<lambda>j.
     and_then (Cell_cant_assign ndebug (cells b j) dig) (\<lambda>x.
     Inr (b\<lparr>cells := (cells b)(j := x)\<rparr>)))"

definition Board_assign :: "bool \<Rightarrow> Board \<Rightarrow> int \<Rightarrow> int \<Rightarrow> error + Board" where
  "Board_assign ndebug b pos dig =
     and_then (check_assert ndebug PosInRange (0 \<le> pos \<and> pos < num_cells)) (\<lambda>_.
     and_then (check_assert ndebug DigInRange (1 \<le> dig \<and> dig \<le> 9)) (\<lambda>_.
     let row = pos sdiv 9; col = pos smod 9 in
     and_then (Board_cell ndebug pos) (\<lambda>i.
     let b0 = b\<lparr>cells := (cells b)(i := (cells b i)\<lparr>assigned := dig\<rparr>)\<rparr> in
     and_then (for_loop [0..8] (\<lambda>r. cant_assign_at ndebug dig r col) b0) (\<lambda>b1.
     and_then (for_loop [0..8] (\<lambda>c. cant_assign_at ndebug dig row c) b1) (\<lambda>b2.
     let rb = row - row smod 3; cb = col - col smod 3 in
     for_loop [0..2] (\<lambda>r.
       for_loop [0..2] (\<lambda>c. cant_assign_at ndebug dig (rb + r) (cb + c))) b2)))))"

text \<open>
  The function package needs to know that the continuation of \<open>and_then\<close> runs only on
  a result, and the body of \<open>for_loop\<close> only on the values of the index.
\<close>

lemma and_then_cong [fundef_cong]:
  "m = m' \<Longrightarrow> (\<And>x. m' = Inr x \<Longrightarrow> f x = g x) \<Longrightarrow> and_then m f = and_then m' g"
  by (cases m') (simp_all add: and_then_def)

lemma for_loop_cong [fundef_cong]:
  "xs = ys \<Longrightarrow> s = t \<Longrightarrow> (\<And>i u. i \<in> set ys \<Longrightarrow> body i u = body' i u)
   \<Longrightarrow> for_loop xs body s = for_loop ys body' t"
proof (induction ys arbitrary: xs s t)
  case Nil
  then show ?case by simp
next
  case (Cons y ys)
  have "for_loop ys body u = for_loop ys body' u" for u
    using Cons.IH [of ys u u] Cons.prems(3) by simp
  then have "for_loop ys body = for_loop ys body'"
    by (rule ext)
  with Cons.prems show ?case
    by simp
qed

text \<open>
  \<open>Board::find\<close>. The result is the list of the boards on which \<open>print()\<close> is called,
  in the order of the calls; \<open>print_each\<close> below turns it into the text on \<open>cout\<close>.
  The \<open>for (;;)\<close> scan is the recursive call at \<open>pos + 1\<close>; the digit loop threads the
  emissions so far.
\<close>

function Board_find :: "bool \<Rightarrow> Board \<Rightarrow> int \<Rightarrow> error + Board list" where
  "Board_find ndebug b pos =
     (if pos = num_cells then Inr [b]
      else
        and_then (Board_cell ndebug pos) (\<lambda>i.
        if assigned (cells b i) \<noteq> 0 then Board_find ndebug b (pos + 1)
        else
          and_then (Board_cell ndebug pos) (\<lambda>j.
          let x = cells b j in
          if \<not> Cell_assignable x then Inr []
          else
            for_loop [1..9] (\<lambda>dig out.
              and_then (Cell_assignable_dig ndebug x dig) (\<lambda>a.
              if a then
                and_then (Board_assign ndebug b pos dig) (\<lambda>next.
                and_then (Board_find ndebug next pos) (\<lambda>out'.
                Inr (out @ out')))
              else Inr out)) [])))"
  by pat_completeness auto

text \<open>\<open>operator<<(int)\<close> and \<open>std::to_string(int)\<close>: the decimal digits, a minus sign first.\<close>

fun show_nat :: "nat \<Rightarrow> string" where
  "show_nat n =
     (if n < 10 then [char_of (48 + n)]
      else show_nat (n div 10) @ [char_of (48 + n mod 10)])"

definition show_int :: "int \<Rightarrow> string" where
  "show_int i = (if i < 0 then CHR ''-'' # show_nat (nat (- i)) else show_nat (nat i))"

definition newline :: char where
  "newline = CHR 0x0A"

text \<open>\<open>Board::print\<close> appends to the text already on \<open>cout\<close>.\<close>

definition Board_print :: "bool \<Rightarrow> Board \<Rightarrow> string \<Rightarrow> error + string" where
  "Board_print ndebug b out0 =
     and_then
       (for_loop [0..8] (\<lambda>r out.
          and_then
            (for_loop [0..8] (\<lambda>c out.
               and_then (Board_cell_rc ndebug r c) (\<lambda>j.
               let x = cells b j;
                   out1 = (if assigned x \<noteq> 0 then out @ show_int (assigned x)
                           else out @ [CHR ''_''])
               in Inr (if c = 2 \<or> c = 5 then out1 @ [CHR '' ''] else out1))) out)
            (\<lambda>out. Inr (out @ [newline]))) out0)
       (\<lambda>out. Inr (out @ [newline]))"

fun print_each :: "bool \<Rightarrow> Board list \<Rightarrow> string \<Rightarrow> error + string" where
  "print_each ndebug [] out = Inr out"
| "print_each ndebug (b # bs) out = and_then (Board_print ndebug b out) (print_each ndebug bs)"

section \<open>main\<close>

text \<open>
  Standard input is the list of its bytes; \<open>getchar\<close> returns each as a value in 0..255
  and \<open>EOF\<close> at the end of the list. \<open>isdigit\<close> is the one of the "C" locale (the
  program never sets another). \<open>++pos\<close> on the largest \<open>int\<close> has no meaning.
\<close>

definition isdigit :: "int \<Rightarrow> bool" where
  "isdigit c = (48 \<le> c \<and> c \<le> 57)"

definition increment :: "int \<Rightarrow> error + int" where
  "increment pos =
     (if pos = 2147483647 then Inl (UndefinedBehaviour SignedOverflow) else Inr (pos + 1))"

definition main_step :: "bool \<Rightarrow> char \<Rightarrow> Board \<times> int \<Rightarrow> error + Board \<times> int" where
  "main_step ndebug ch = (\<lambda>(b, pos).
     let c = int (of_char ch) in
     if c = 95 then
       and_then (increment pos) (\<lambda>pos'. Inr (b, pos'))
     else if isdigit c then
       and_then (if pos < num_cells then Board_assign ndebug b pos (c - 48) else Inr b) (\<lambda>b'.
       and_then (increment pos) (\<lambda>pos'. Inr (b', pos')))
     else Inr (b, pos))"

fun main_loop :: "bool \<Rightarrow> string \<Rightarrow> Board \<times> int \<Rightarrow> error + Board \<times> int" where
  "main_loop ndebug [] s = Inr s"
| "main_loop ndebug (ch # rest) s = and_then (main_step ndebug ch s) (main_loop ndebug rest)"

text \<open>The result of \<open>main\<close> is the text written to \<open>cout\<close>.\<close>

definition main :: "bool \<Rightarrow> string \<Rightarrow> error + string" where
  "main ndebug input =
     and_then (main_loop ndebug input (Board_init, 0)) (\<lambda>(b, pos).
     if pos \<noteq> num_cells then Inl (RuntimeError (''Invalid board: '' @ show_int pos))
     else and_then (Board_find ndebug b 0) (\<lambda>emitted. print_each ndebug emitted []))"

section \<open>Notions of the specification\<close>

text \<open>
  Cells are numbered in row-major order, \<open>row * 9 + col\<close>. Two cells are in the same unit
  when they share a row, a column or a 3x3 box; the peers of a cell are the other cells
  of its units.
\<close>

definition row_of :: "nat \<Rightarrow> nat" where
  "row_of p = p div 9"

definition col_of :: "nat \<Rightarrow> nat" where
  "col_of p = p mod 9"

definition same_unit :: "nat \<Rightarrow> nat \<Rightarrow> bool" where
  "same_unit p q =
     (row_of p = row_of q \<or> col_of p = col_of q \<or>
      (row_of p div 3 = row_of q div 3 \<and> col_of p div 3 = col_of q div 3))"

definition unit_cells :: "nat \<Rightarrow> nat set" where
  "unit_cells p = {q \<in> {0..<81}. same_unit p q}"

definition peers :: "nat \<Rightarrow> nat list" where
  "peers p = filter (\<lambda>q. q \<noteq> p \<and> same_unit p q) [0..<81]"

text \<open>
  For counting the peers: the cells whose row and column lie in given sets, and the three
  rows (or columns) of the boxes that hold row (or column) \<open>k\<close>.
\<close>

definition grid_cells :: "nat set \<Rightarrow> nat set \<Rightarrow> nat set" where
  "grid_cells R C = {q \<in> {0..<81}. row_of q \<in> R \<and> col_of q \<in> C}"

definition band :: "nat \<Rightarrow> nat set" where
  "band k = {j \<in> {0..<9}. j div 3 = k div 3}"

text \<open>The uniqueness invariant: no digit twice among the assigned cells of a unit.\<close>

definition unique_digits :: "Board \<Rightarrow> bool" where
  "unique_digits b =
     (\<forall>p\<in>{0..<81}. \<forall>q\<in>{0..<81}.
        p \<noteq> q \<and> same_unit p q \<and> assigned (cells b p) \<noteq> 0
        \<longrightarrow> assigned (cells b p) \<noteq> assigned (cells b q))"

definition all_assigned :: "Board \<Rightarrow> bool" where
  "all_assigned b = (\<forall>p\<in>{0..<81}. 1 \<le> assigned (cells b p) \<and> assigned (cells b p) \<le> 9)"

text \<open>The candidate set of a cell: the digits for which \<open>assignable(dig)\<close> answers true.\<close>

definition candidates :: "Cell \<Rightarrow> int set" where
  "candidates c = set (filter (\<lambda>dig. Cell_assignable_dig False c dig = Inr True) [1..9])"

text \<open>
  A sequence of \<open>assign\<close> calls, and what makes it mutually non-conflicting: every
  position is a cell of the board and every digit is a candidate of its cell when its
  call is made.
\<close>

fun assign_calls :: "bool \<Rightarrow> (int \<times> int) list \<Rightarrow> Board \<Rightarrow> error + Board" where
  "assign_calls ndebug [] b = Inr b"
| "assign_calls ndebug ((pos, dig) # rest) b =
     and_then (Board_assign ndebug b pos dig) (assign_calls ndebug rest)"

fun candidate_calls :: "(int \<times> int) list \<Rightarrow> Board \<Rightarrow> bool" where
  "candidate_calls [] b = True"
| "candidate_calls ((pos, dig) # rest) b =
     (0 \<le> pos \<and> pos < num_cells \<and> dig \<in> candidates (cells b (nat pos)) \<and>
      (case Board_assign False b pos dig of
         Inl e \<Rightarrow> False
       | Inr b' \<Rightarrow> candidate_calls rest b'))"

text \<open>The digits of a board read in row-major order, and the lexicographic order on them.\<close>

definition digits :: "Board \<Rightarrow> int list" where
  "digits b = map (\<lambda>q. assigned (cells b q)) [0..<81]"

fun lex_less :: "int list \<Rightarrow> int list \<Rightarrow> bool" where
  "lex_less (x # xs) (y # ys) = (x < y \<or> (x = y \<and> lex_less xs ys))"
| "lex_less xs ys = False"

text \<open>
  The rendering of the specification: nine lines of nine digits, a space after the third
  and the sixth, and an empty line after them. The character of the digit \<open>d\<close> has the
  code \<open>48 + d\<close>.
\<close>

definition row_text :: "Board \<Rightarrow> nat \<Rightarrow> string" where
  "row_text b r =
     (let d = (\<lambda>c. char_of (48 + nat (assigned (cells b (r * 9 + c)))))
      in [d 0, d 1, d 2, CHR '' '', d 3, d 4, d 5, CHR '' '', d 6, d 7, d 8])"

definition render :: "Board \<Rightarrow> string" where
  "render b = concat (map (\<lambda>r. row_text b r @ [newline]) [0..<9]) @ [newline]"

text \<open>The characters that the parser counts as a cell.\<close>

definition counted :: "char \<Rightarrow> bool" where
  "counted ch = (ch = CHR ''_'' \<or> isdigit (int (of_char ch)))"

section \<open>Auxiliary notions\<close>

text \<open>
  Auxiliary notions for the proofs: clearing the bit of a digit in one cell and in a set
  of cells, writing the digit of a cell, and the cells still empty.
\<close>

definition clear_digit :: "int \<Rightarrow> Cell \<Rightarrow> Cell" where
  "clear_digit dig c = c\<lparr>assignable := assignable c AND NOT (push_bit (nat dig) 1)\<rparr>"

definition forbid_set :: "nat set \<Rightarrow> int \<Rightarrow> Board \<Rightarrow> Board" where
  "forbid_set S dig b =
     b\<lparr>cells := (\<lambda>q. if q \<in> S then clear_digit dig (cells b q) else cells b q)\<rparr>"

definition set_assigned :: "nat \<Rightarrow> int \<Rightarrow> Board \<Rightarrow> Board" where
  "set_assigned p dig b = b\<lparr>cells := (cells b)(p := (cells b p)\<lparr>assigned := dig\<rparr>)\<rparr>"

definition unassigned :: "Board \<Rightarrow> nat set" where
  "unassigned b = {q \<in> {0..<81}. assigned (cells b q) = 0}"

definition shrinks :: "Board \<Rightarrow> Board \<Rightarrow> bool" where
  "shrinks b b' = (\<forall>q n. bit (assignable (cells b' q)) n \<longrightarrow> bit (assignable (cells b q)) n)"

section \<open>The search of the specification and its invariants\<close>

text \<open>The board that \<open>assign(p, dig)\<close> leaves, for a position and a digit in range.\<close>

definition after_assign :: "Board \<Rightarrow> nat \<Rightarrow> int \<Rightarrow> Board" where
  "after_assign b p dig = forbid_set (unit_cells p) dig (set_assigned p dig b)"

text \<open>
  The enumeration in the words of the specification (section 4.2, \<open>search\<close>): scan
  forward to the first empty cell in row-major order; when none is left, emit the board;
  otherwise, for each candidate digit of that cell in ascending order, assign it on a copy
  and search the copy from the same position. A cell without candidates emits nothing.
\<close>

function search :: "Board \<Rightarrow> nat \<Rightarrow> Board list" where
  "search b p =
     (if 81 \<le> p then [b]
      else if assigned (cells b p) \<noteq> 0 then search b (Suc p)
      else concat (map (\<lambda>dig. search (after_assign b p dig) p)
                       (filter (\<lambda>dig. dig \<in> candidates (cells b p)) [1..9])))"
  by pat_completeness auto

text \<open>
  Invariants of the boards the search visits. \<open>propagated\<close>: the digit of an assigned
  cell is no candidate anywhere in its units. \<open>exact\<close>: a digit missing from the candidates
  of an empty cell is assigned somewhere in its units.
\<close>

definition propagated :: "Board \<Rightarrow> bool" where
  "propagated b =
     (\<forall>p\<in>{0..<81}. \<forall>q\<in>unit_cells p. assigned (cells b p) \<notin> candidates (cells b q))"

definition digits_in_range :: "Board \<Rightarrow> bool" where
  "digits_in_range b =
     (\<forall>p\<in>{0..<81}. 0 \<le> assigned (cells b p) \<and> assigned (cells b p) \<le> 9)"

definition sound_board :: "Board \<Rightarrow> bool" where
  "sound_board b = (unique_digits b \<and> propagated b \<and> digits_in_range b)"

definition exact :: "Board \<Rightarrow> bool" where
  "exact b =
     (\<forall>q\<in>{0..<81}. \<forall>d\<in>{1..9}.
        assigned (cells b q) = 0 \<longrightarrow>
        d \<in> candidates (cells b q) \<or> (\<exists>p\<in>unit_cells q. assigned (cells b p) = d))"

text \<open>A filled grid, what makes it a Sudoku solution, and a board that agrees with it.\<close>

definition agrees :: "Board \<Rightarrow> (nat \<Rightarrow> int) \<Rightarrow> bool" where
  "agrees b s = (\<forall>q\<in>{0..<81}. assigned (cells b q) \<noteq> 0 \<longrightarrow> assigned (cells b q) = s q)"

definition valid_grid :: "(nat \<Rightarrow> int) \<Rightarrow> bool" where
  "valid_grid s =
     ((\<forall>p\<in>{0..<81}. 1 \<le> s p \<and> s p \<le> 9) \<and>
      (\<forall>p\<in>{0..<81}. \<forall>q\<in>{0..<81}. p \<noteq> q \<and> same_unit p q \<longrightarrow> s p \<noteq> s q))"

text \<open>The solved grid printed in the header comment of sudoku.cpp.\<close>

definition example_solution :: "int list" where
  "example_solution =
     [7,5,3, 8,6,2, 4,1,9,
      4,2,9, 1,7,5, 6,8,3,
      1,8,6, 4,3,9, 7,2,5,
      6,9,2, 3,5,8, 1,4,7,
      3,4,7, 6,9,1, 8,5,2,
      8,1,5, 7,2,4, 3,9,6,
      5,3,8, 9,1,6, 2,7,4,
      2,7,4, 5,8,3, 9,6,1,
      9,6,1, 2,4,7, 5,3,8]"

text \<open>The 27 units as lists of cells.\<close>

definition row_cells :: "nat \<Rightarrow> nat list" where
  "row_cells r = map (\<lambda>c. r * 9 + c) [0..<9]"

definition col_cells :: "nat \<Rightarrow> nat list" where
  "col_cells c = map (\<lambda>r. r * 9 + c) [0..<9]"

definition box_cells :: "nat \<Rightarrow> nat \<Rightarrow> nat list" where
  "box_cells br bc =
     concat (map (\<lambda>i. map (\<lambda>j. (br * 3 + i) * 9 + (bc * 3 + j)) [0..<3]) [0..<3])"

definition units :: "nat list list" where
  "units = map row_cells [0..<9] @ map col_cells [0..<9] @
           concat (map (\<lambda>br. map (box_cells br) [0..<3]) [0..<3])"

text \<open>
  The solved grid of the header as a board, and the text the header shows for it.
\<close>

definition example_board :: Board where
  "example_board = \<lparr>cells = (\<lambda>q. \<lparr>assigned = example_solution ! q, assignable = 0\<rparr>)\<rparr>"

definition example_text :: string where
  "example_text =
     concat (map (\<lambda>line. line @ [newline])
       [''753 862 419'', ''429 175 683'', ''186 439 725'',
        ''692 358 147'', ''347 691 852'', ''815 724 396'',
        ''538 916 274'', ''274 583 961'', ''961 247 538'', ''''])"

section \<open>What \<open>assign\<close> computes\<close>

lemma and_then_Inr: "and_then (Inr x) f = f x"
  by (simp add: and_then_def)

lemma clear_digit_twice: "clear_digit dig (clear_digit dig c) = clear_digit dig c"
  by (simp add: clear_digit_def)

lemma sdiv_nonneg: "0 \<le> k \<Longrightarrow> 0 < l \<Longrightarrow> (k::int) sdiv l = k div l"
  by (cases "k = 0") (simp_all add: signed_divide_int_def)

lemma smod_nonneg: "0 \<le> k \<Longrightarrow> 0 < l \<Longrightarrow> (k::int) smod l = k mod l"
  by (cases "k = 0") (simp_all add: signed_modulo_int_def)

lemma check_assert_holds: "ndebug \<or> c \<Longrightarrow> check_assert ndebug a c = Inr ()"
  by (simp add: check_assert_def)

lemma Board_cell_ok: "0 \<le> pos \<Longrightarrow> pos < 81 \<Longrightarrow> Board_cell ndebug pos = Inr (nat pos)"
  by (simp add: Board_cell_def check_assert_def subscript_def num_cells_def and_then_def)

lemma Board_cell_rc_ok:
  "0 \<le> row \<Longrightarrow> row < 9 \<Longrightarrow> 0 \<le> col \<Longrightarrow> col < 9
   \<Longrightarrow> Board_cell_rc ndebug row col = Inr (nat (row * 9 + col))"
  by (simp add: Board_cell_rc_def check_assert_def subscript_def num_cells_def and_then_def)

lemma Cell_cant_assign_ok:
  "ndebug \<or> (1 \<le> dig \<and> dig \<le> 9) \<Longrightarrow> 0 \<le> dig \<Longrightarrow> dig < 32
   \<Longrightarrow> Cell_cant_assign ndebug c dig = Inr (clear_digit dig c)"
  by (simp add: Cell_cant_assign_def check_assert_holds shift_one_def and_then_Inr
      clear_digit_def)

lemma forbid_set_single:
  "b\<lparr>cells := (cells b)(j := clear_digit dig (cells b j))\<rparr> = forbid_set {j} dig b"
proof -
  have "(cells b)(j := clear_digit dig (cells b j)) =
        (\<lambda>q. if q \<in> {j} then clear_digit dig (cells b q) else cells b q)"
    by auto
  then show ?thesis
    by (simp add: forbid_set_def)
qed

lemma cant_assign_at_ok:
  "ndebug \<or> (1 \<le> dig \<and> dig \<le> 9) \<Longrightarrow> 0 \<le> dig \<Longrightarrow> dig < 32 \<Longrightarrow> 0 \<le> row \<Longrightarrow> row < 9 \<Longrightarrow> 0 \<le> col \<Longrightarrow> col < 9
   \<Longrightarrow> cant_assign_at ndebug dig row col b = Inr (forbid_set {nat (row * 9 + col)} dig b)"
  by (simp add: cant_assign_at_def Board_cell_rc_ok Cell_cant_assign_ok and_then_Inr
      forbid_set_single)

lemma forbid_set_twice: "forbid_set T dig (forbid_set S dig b) = forbid_set (S \<union> T) dig b"
  by (auto simp add: forbid_set_def fun_eq_iff clear_digit_twice)

lemma forbid_set_empty: "forbid_set {} dig b = b"
  by (simp add: forbid_set_def)

lemma for_loop_forbid:
  "(\<And>i u. i \<in> set xs \<Longrightarrow> body i u = Inr (forbid_set (S i) dig u))
   \<Longrightarrow> for_loop xs body b = Inr (forbid_set (\<Union>i\<in>set xs. S i) dig b)"
proof (induction xs arbitrary: b)
  case Nil
  then show ?case by (simp add: forbid_set_empty)
next
  case (Cons x xs)
  have "for_loop xs body u = Inr (forbid_set (\<Union>i\<in>set xs. S i) dig u)" for u
    using Cons by simp
  then show ?case
    using Cons.prems [of x b] by (simp add: and_then_Inr forbid_set_twice)
qed

lemma idx_int:
  fixes z :: int
  assumes "0 \<le> c" "c < 9"
  shows "z = r * 9 + c \<longleftrightarrow> z div 9 = r \<and> z mod 9 = c"
proof
  assume "z = r * 9 + c"
  then have z: "z = c + r * 9" by simp
  have "z div 9 = c div 9 + r" unfolding z by simp
  moreover have "z mod 9 = c mod 9" unfolding z by simp
  ultimately show "z div 9 = r \<and> z mod 9 = c" using assms by simp
next
  assume a: "z div 9 = r \<and> z mod 9 = c"
  have "z = z div 9 * 9 + z mod 9" by simp
  with a show "z = r * 9 + c" by simp
qed

lemma idx_eq:
  assumes "0 \<le> r" "0 \<le> c" "c < 9"
  shows "q = nat (r * 9 + c) \<longleftrightarrow> int (q div 9) = r \<and> int (q mod 9) = c"
proof -
  have "q = nat (r * 9 + c) \<longleftrightarrow> int q = r * 9 + c"
    using assms by auto
  also have "\<dots> \<longleftrightarrow> int q div 9 = r \<and> int q mod 9 = c"
    using assms(2,3) by (rule idx_int)
  finally show ?thesis
    by (simp add: zdiv_int zmod_int)
qed

lemma box_1d:
  "(\<exists>r. 0 \<le> r \<and> r \<le> 2 \<and> Q = R - R mod 3 + r) \<longleftrightarrow> Q div 3 = R div (3::int)"
proof
  assume "\<exists>r. 0 \<le> r \<and> r \<le> 2 \<and> Q = R - R mod 3 + r"
  then obtain r where r: "0 \<le> r" "r \<le> 2" "Q = R - R mod 3 + r" by blast
  then have "Q = r + R div 3 * 3" by (simp add: minus_mod_eq_div_mult)
  then have "Q div 3 = r div 3 + R div 3" by simp
  with r show "Q div 3 = R div 3" by simp
next
  assume a: "Q div 3 = R div 3"
  have "Q = Q div 3 * 3 + Q mod 3" by simp
  then have "Q = R - R mod 3 + Q mod 3" by (simp add: a minus_mod_eq_div_mult)
  moreover have "0 \<le> Q mod 3" "Q mod 3 \<le> 2" by simp_all
  ultimately show "\<exists>r. 0 \<le> r \<and> r \<le> 2 \<and> Q = R - R mod 3 + r" by blast
qed

lemma div9_less: "q div 9 < 9 \<longleftrightarrow> q < (81::nat)"
  by (simp add: div_less_iff_less_mult)

lemma div9_le: "int (q div 9) \<le> 8 \<longleftrightarrow> q < 81"
  using div9_less [of q] by linarith

lemma col_member:
  "q \<in> (\<Union>r\<in>set [0..8]. {nat (r * 9 + int (col_of p))}) \<longleftrightarrow>
   q < 81 \<and> col_of p = col_of q"
proof -
  have c: "0 \<le> int (col_of p)" "int (col_of p) < 9"
    by (simp_all add: col_of_def)
  have "q \<in> (\<Union>r\<in>set [0..8]. {nat (r * 9 + int (col_of p))}) \<longleftrightarrow>
        (\<exists>r. 0 \<le> r \<and> r \<le> 8 \<and> q = nat (r * 9 + int (col_of p)))"
    by auto
  also have "\<dots> \<longleftrightarrow>
        (\<exists>r. 0 \<le> r \<and> r \<le> 8 \<and> int (q div 9) = r \<and> int (q mod 9) = int (col_of p))"
    using idx_eq [OF _ c] by blast
  also have "\<dots> \<longleftrightarrow> int (q div 9) \<le> 8 \<and> int (q mod 9) = int (col_of p)"
    by (metis of_nat_0_le_iff)
  also have "\<dots> \<longleftrightarrow> q < 81 \<and> col_of p = col_of q"
    unfolding div9_le col_of_def of_nat_eq_iff by (rule conj_cong) auto
  finally show ?thesis .
qed

lemma row_member:
  assumes "p < 81"
  shows "q \<in> (\<Union>c\<in>set [0..8]. {nat (int (row_of p) * 9 + c)}) \<longleftrightarrow>
         q < 81 \<and> row_of p = row_of q"
proof -
  have "q \<in> (\<Union>c\<in>set [0..8]. {nat (int (row_of p) * 9 + c)}) \<longleftrightarrow>
        (\<exists>c. 0 \<le> c \<and> c \<le> 8 \<and> q = nat (int (row_of p) * 9 + c))"
    by auto
  also have "\<dots> \<longleftrightarrow>
        (\<exists>c. 0 \<le> c \<and> c \<le> 8 \<and> int (q div 9) = int (row_of p) \<and> int (q mod 9) = c)"
  proof -
    have "q = nat (int (row_of p) * 9 + c) \<longleftrightarrow>
          int (q div 9) = int (row_of p) \<and> int (q mod 9) = c" if "0 \<le> c" "c \<le> 8" for c
      using that by (intro idx_eq) simp_all
    then show ?thesis by blast
  qed
  also have "\<dots> \<longleftrightarrow> int (q div 9) = int (row_of p)"
  proof -
    have "0 \<le> int (q mod 9)" "int (q mod 9) \<le> 8" by simp_all
    then show ?thesis by blast
  qed
  also have "\<dots> \<longleftrightarrow> q div 9 = p div 9"
    by (simp only: row_of_def of_nat_eq_iff)
  also have "\<dots> \<longleftrightarrow> q < 81 \<and> row_of p = row_of q"
    unfolding row_of_def using assms div9_less [of p] div9_less [of q] by metis
  finally show ?thesis .
qed

lemma box_origin:
  fixes k :: int
  assumes "0 \<le> k" "k < 9"
  shows "0 \<le> k - k mod 3" "k - k mod 3 \<le> 6"
proof -
  have "k - k mod 3 = k div 3 * 3" by (simp add: minus_mod_eq_div_mult)
  moreover have "0 \<le> k div 3" "k div 3 \<le> 2" using assms by simp_all
  ultimately show "0 \<le> k - k mod 3" "k - k mod 3 \<le> 6" by simp_all
qed

lemma div27_less:
  assumes "p < (81::nat)" "q div 9 div 3 = p div 9 div 3"
  shows "q < 81"
proof -
  have "p div 9 div 3 < 3" using assms(1) by (simp add: div_less_iff_less_mult)
  then have "q div 9 div 3 < 3" using assms(2) by simp
  then show ?thesis by (simp add: div_less_iff_less_mult)
qed

lemma int_div3_eq: "int a div 3 = int b div 3 \<longleftrightarrow> a div 3 = b div 3"
proof -
  have "int a div 3 = int (a div 3)" "int b div 3 = int (b div 3)"
    by (simp_all add: zdiv_int)
  then show ?thesis
    by (simp only: of_nat_eq_iff)
qed

lemma box_member:
  assumes "p < 81"
  shows "q \<in> (\<Union>r\<in>set [0..2]. \<Union>c\<in>set [0..2].
               {nat ((int (row_of p) - int (row_of p) mod 3 + r) * 9 +
                     (int (col_of p) - int (col_of p) mod 3 + c))}) \<longleftrightarrow>
         q < 81 \<and> row_of p div 3 = row_of q div 3 \<and> col_of p div 3 = col_of q div 3"
proof -
  define rb where "rb = int (row_of p) - int (row_of p) mod 3"
  define cb where "cb = int (col_of p) - int (col_of p) mod 3"
  have rp: "0 \<le> int (row_of p)" "int (row_of p) < 9"
    using assms div9_less [of p] by (simp_all add: row_of_def)
  have cp: "0 \<le> int (col_of p)" "int (col_of p) < 9"
    by (simp_all add: col_of_def)
  have rb: "0 \<le> rb" "rb \<le> 6"
    unfolding rb_def using rp by (rule box_origin)+
  have cb: "0 \<le> cb" "cb \<le> 6"
    unfolding cb_def using cp by (rule box_origin)+
  have "q \<in> (\<Union>r\<in>set [0..2]. \<Union>c\<in>set [0..2]. {nat ((rb + r) * 9 + (cb + c))}) \<longleftrightarrow>
        (\<exists>r c. 0 \<le> r \<and> r \<le> 2 \<and> 0 \<le> c \<and> c \<le> 2 \<and> q = nat ((rb + r) * 9 + (cb + c)))"
    unfolding UN_iff singleton_iff set_upto atLeastAtMost_iff Bex_def by blast
  also have "\<dots> \<longleftrightarrow>
        (\<exists>r c. 0 \<le> r \<and> r \<le> 2 \<and> 0 \<le> c \<and> c \<le> 2 \<and>
               int (q div 9) = rb + r \<and> int (q mod 9) = cb + c)"
  proof -
    have "q = nat ((rb + r) * 9 + (cb + c)) \<longleftrightarrow>
          int (q div 9) = rb + r \<and> int (q mod 9) = cb + c"
      if "0 \<le> r" "r \<le> 2" "0 \<le> c" "c \<le> 2" for r c
      using that rb cb by (intro idx_eq) simp_all
    then show ?thesis by blast
  qed
  also have "\<dots> \<longleftrightarrow>
        (\<exists>r. 0 \<le> r \<and> r \<le> 2 \<and> int (q div 9) = rb + r) \<and>
        (\<exists>c. 0 \<le> c \<and> c \<le> 2 \<and> int (q mod 9) = cb + c)"
    by blast
  also have "\<dots> \<longleftrightarrow>
        int (q div 9) div 3 = int (row_of p) div 3 \<and> int (q mod 9) div 3 = int (col_of p) div 3"
    unfolding rb_def cb_def box_1d by (rule refl)
  also have "\<dots> \<longleftrightarrow> q div 9 div 3 = p div 9 div 3 \<and> q mod 9 div 3 = p mod 9 div 3"
    unfolding row_of_def col_of_def int_div3_eq
    by (rule refl)
  also have "\<dots> \<longleftrightarrow>
        q < 81 \<and> row_of p div 3 = row_of q div 3 \<and> col_of p div 3 = col_of q div 3"
    unfolding row_of_def col_of_def using div27_less [OF assms, of q] by auto
  finally show ?thesis
    unfolding rb_def cb_def .
qed

lemma touched_cells:
  assumes "p < 81"
  shows "(\<Union>r\<in>set [0..8]. {nat (r * 9 + int (col_of p))}) \<union>
         (\<Union>c\<in>set [0..8]. {nat (int (row_of p) * 9 + c)}) \<union>
         (\<Union>r\<in>set [0..2]. \<Union>c\<in>set [0..2].
               {nat ((int (row_of p) - int (row_of p) mod 3 + r) * 9 +
                     (int (col_of p) - int (col_of p) mod 3 + c))}) = unit_cells p"
proof (rule set_eqI)
  fix q
  show "q \<in> (\<Union>r\<in>set [0..8]. {nat (r * 9 + int (col_of p))}) \<union>
         (\<Union>c\<in>set [0..8]. {nat (int (row_of p) * 9 + c)}) \<union>
         (\<Union>r\<in>set [0..2]. \<Union>c\<in>set [0..2].
               {nat ((int (row_of p) - int (row_of p) mod 3 + r) * 9 +
                     (int (col_of p) - int (col_of p) mod 3 + c))}) \<longleftrightarrow> q \<in> unit_cells p"
    unfolding Un_iff col_member row_member [OF assms] box_member [OF assms]
    by (auto simp add: unit_cells_def same_unit_def)
qed

lemma Board_assign_general:
  assumes "0 \<le> pos" "pos < 81" "ndebug \<or> (1 \<le> dig \<and> dig \<le> 9)" "0 \<le> dig" "dig < 32"
  shows "Board_assign ndebug b pos dig =
         Inr (forbid_set (unit_cells (nat pos)) dig (set_assigned (nat pos) dig b))"
proof -
  define p where "p = nat pos"
  have p: "pos = int p" "p < 81"
    using assms by (simp_all add: p_def)
  define row where "row = int (row_of p)"
  define col where "col = int (col_of p)"
  have row: "0 \<le> row" "row < 9"
    using p div9_less [of p] by (simp_all add: row_def row_of_def)
  have col: "0 \<le> col" "col < 9"
    by (simp_all add: col_def col_of_def)
  have sdiv: "pos sdiv 9 = row"
    using assms by (simp add: sdiv_nonneg row_def row_of_def p zdiv_int)
  have smod: "pos smod 9 = col"
    using assms by (simp add: smod_nonneg col_def col_of_def p zmod_int)
  have smod3: "row smod 3 = row mod 3" "col smod 3 = col mod 3"
    using row col by (simp_all add: smod_nonneg)
  define rb where "rb = row - row mod 3"
  define cb where "cb = col - col mod 3"
  have rb: "0 \<le> rb" "rb \<le> 6"
    unfolding rb_def using row by (rule box_origin)+
  have cb: "0 \<le> cb" "cb \<le> 6"
    unfolding cb_def using col by (rule box_origin)+
  have l1: "for_loop [0..8] (\<lambda>r. cant_assign_at ndebug dig r col) u =
            Inr (forbid_set (\<Union>r\<in>set [0..8]. {nat (r * 9 + col)}) dig u)" for u
    using assms col by (intro for_loop_forbid cant_assign_at_ok) simp_all
  have l2: "for_loop [0..8] (\<lambda>c. cant_assign_at ndebug dig row c) u =
            Inr (forbid_set (\<Union>c\<in>set [0..8]. {nat (row * 9 + c)}) dig u)" for u
    using assms row by (intro for_loop_forbid cant_assign_at_ok) simp_all
  have l3: "for_loop [0..2] (\<lambda>r.
              for_loop [0..2] (\<lambda>c. cant_assign_at ndebug dig (rb + r) (cb + c))) u =
            Inr (forbid_set (\<Union>r\<in>set [0..2]. \<Union>c\<in>set [0..2].
                   {nat ((rb + r) * 9 + (cb + c))}) dig u)" for u
    using assms rb cb by (intro for_loop_forbid cant_assign_at_ok) simp_all
  have "Board_assign ndebug b pos dig =
        Inr (forbid_set
          ((\<Union>r\<in>set [0..8]. {nat (r * 9 + col)}) \<union>
           (\<Union>c\<in>set [0..8]. {nat (row * 9 + c)}) \<union>
           (\<Union>r\<in>set [0..2]. \<Union>c\<in>set [0..2]. {nat ((rb + r) * 9 + (cb + c))}))
          dig (set_assigned (nat pos) dig b))"
    unfolding Board_assign_def sdiv smod smod3 Let_def
    using assms
    by (simp add: check_assert_holds num_cells_def Board_cell_ok and_then_Inr
        l1 l2 l3 [unfolded rb_def cb_def] forbid_set_twice set_assigned_def rb_def cb_def Un_assoc)
  also have "(\<Union>r\<in>set [0..8]. {nat (r * 9 + col)}) \<union>
           (\<Union>c\<in>set [0..8]. {nat (row * 9 + c)}) \<union>
           (\<Union>r\<in>set [0..2]. \<Union>c\<in>set [0..2]. {nat ((rb + r) * 9 + (cb + c))}) =
           unit_cells (nat pos)"
    unfolding rb_def cb_def row_def col_def using touched_cells [OF p(2)] p(1) by simp
  finally show ?thesis .
qed

lemma Board_assign_ok:
  assumes "0 \<le> pos" "pos < 81" "1 \<le> dig" "dig \<le> 9"
  shows "Board_assign ndebug b pos dig =
         Inr (forbid_set (unit_cells (nat pos)) dig (set_assigned (nat pos) dig b))"
  using assms by (intro Board_assign_general) simp_all

section \<open>Termination of \<open>find\<close>\<close>

lemma Board_cell_Inr: "Board_cell ndebug pos = Inr i \<Longrightarrow> 0 \<le> pos \<and> pos < 81 \<and> i = nat pos"
  by (auto simp add: Board_cell_def subscript_def num_cells_def and_then_def check_assert_def
      split: if_splits sum.splits)

lemma assigned_clear_digit: "assigned (clear_digit dig c) = assigned c"
  by (simp add: clear_digit_def)

lemma assigned_forbid_set: "assigned (cells (forbid_set S dig b) q) = assigned (cells b q)"
  by (simp add: forbid_set_def assigned_clear_digit)

lemma assigned_set_assigned:
  "assigned (cells (set_assigned p dig b) q) = (if q = p then dig else assigned (cells b q))"
  by (simp add: set_assigned_def)

lemma Board_assign_assigned:
  assumes "0 \<le> pos" "pos < 81" "1 \<le> dig" "dig \<le> 9" "Board_assign ndebug b pos dig = Inr b'"
  shows "assigned (cells b' q) = (if q = nat pos then dig else assigned (cells b q))"
proof -
  have "b' = forbid_set (unit_cells (nat pos)) dig (set_assigned (nat pos) dig b)"
    using assms by (simp add: Board_assign_ok)
  then show ?thesis
    by (simp add: assigned_forbid_set assigned_set_assigned)
qed

lemma finite_unassigned: "finite (unassigned b)"
  by (simp add: unassigned_def)

lemma unassigned_after_assign:
  assumes "0 \<le> pos" "pos < 81" "1 \<le> dig" "dig \<le> 9" "Board_assign ndebug b pos dig = Inr b'"
    and "assigned (cells b (nat pos)) = 0"
  shows "card (unassigned b') < card (unassigned b)"
proof (rule psubset_card_mono [OF finite_unassigned])
  have in_b: "nat pos \<in> unassigned b"
    using assms by (simp add: unassigned_def)
  have "nat pos \<notin> unassigned b'"
    using assms by (simp add: unassigned_def Board_assign_assigned [OF assms(1-5)])
  moreover have "unassigned b' \<subseteq> unassigned b"
    using assms(3)
    by (auto simp add: unassigned_def Board_assign_assigned [OF assms(1-5)] split: if_splits)
  ultimately show "unassigned b' \<subset> unassigned b"
    using in_b by blast
qed

termination Board_find
proof (relation "measures [\<lambda>(ndebug, b, pos). card (unassigned b),
                           \<lambda>(ndebug, b, pos). nat (81 - pos)]")
  show "wf (measures [\<lambda>(ndebug :: bool, b, pos :: int). card (unassigned b),
                      \<lambda>(ndebug, b, pos). nat (81 - pos)])"
    by simp
next
  fix ndebug b pos x
  assume "pos \<noteq> num_cells" "Board_cell ndebug pos = Inr x"
  then show "((ndebug, b, pos + 1), ndebug, b, pos)
      \<in> measures [\<lambda>(ndebug, b, pos). card (unassigned b),
                  \<lambda>(ndebug, b, pos). nat (81 - pos)]"
    by (auto dest: Board_cell_Inr)
next
  fix ndebug b pos x xa xb i u xc xd
  assume a: "Board_cell ndebug pos = Inr x" "\<not> assigned (cells b x) \<noteq> 0"
    "i \<in> set [1..9]" "Board_assign ndebug b pos i = Inr xd"
  have "0 \<le> pos" "pos < 81" "x = nat pos"
    using Board_cell_Inr [OF a(1)] by simp_all
  then have "card (unassigned xd) < card (unassigned b)"
    using a by (intro unassigned_after_assign [of pos i ndebug b xd]) simp_all
  then show "((ndebug, xd, pos), ndebug, b, pos)
      \<in> measures [\<lambda>(ndebug, b, pos). card (unassigned b),
                  \<lambda>(ndebug, b, pos). nat (81 - pos)]"
    by simp
qed

declare Board_find.simps [simp del]

section \<open>Candidate sets only shrink\<close>

lemma shrinks_refl: "shrinks b b"
  by (simp add: shrinks_def)

lemma shrinks_trans: "shrinks a b \<Longrightarrow> shrinks b c \<Longrightarrow> shrinks a c"
  by (simp add: shrinks_def)

lemma and_then_InrE:
  assumes "and_then m f = Inr y"
  obtains x where "m = Inr x" "f x = Inr y"
  using assms by (cases m) (simp_all add: and_then_def)

lemma for_loop_shrinks:
  assumes "\<And>i s s'. i \<in> set xs \<Longrightarrow> body i s = Inr s' \<Longrightarrow> shrinks s s'"
    and "for_loop xs body s = Inr s'"
  shows "shrinks s s'"
  using assms
proof (induction xs arbitrary: s)
  case Nil
  then show ?case by (simp add: shrinks_refl)
next
  case (Cons x xs)
  from Cons.prems(2) obtain t where t: "body x s = Inr t" "for_loop xs body t = Inr s'"
    by (auto elim: and_then_InrE)
  have "shrinks s t"
    using Cons.prems(1) [of x s t] t(1) by simp
  moreover have "shrinks t s'"
  proof (rule Cons.IH [OF _ t(2)])
    fix i u u'
    assume "i \<in> set xs" "body i u = Inr u'"
    then show "shrinks u u'"
      using Cons.prems(1) [of i u u'] by simp
  qed
  ultimately show ?case
    by (rule shrinks_trans)
qed

lemma Cell_cant_assign_bits:
  assumes "Cell_cant_assign ndebug c dig = Inr c'" "bit (assignable c') n"
  shows "bit (assignable c) n"
  using assms
  by (auto simp add: Cell_cant_assign_def bit_and_iff elim!: and_then_InrE)

lemma cant_assign_at_shrinks:
  assumes "cant_assign_at ndebug dig row col b = Inr b'"
  shows "shrinks b b'"
  using assms
  by (auto simp add: cant_assign_at_def shrinks_def elim!: and_then_InrE
      dest: Cell_cant_assign_bits split: if_splits)

lemma Board_assign_shrinks:
  assumes "Board_assign ndebug b pos dig = Inr b'"
  shows "shrinks b b'"
proof -
  define row where "row = pos sdiv 9"
  define col where "col = pos smod 9"
  define rb where "rb = row - row smod 3"
  define cb where "cb = col - col smod 3"
  from assms obtain i b1 b2 where
    l1: "for_loop [0..8] (\<lambda>r. cant_assign_at ndebug dig r col)
           (b\<lparr>cells := (cells b)(i := (cells b i)\<lparr>assigned := dig\<rparr>)\<rparr>) = Inr b1"
    and l2: "for_loop [0..8] (\<lambda>c. cant_assign_at ndebug dig row c) b1 = Inr b2"
    and l3: "for_loop [0..2] (\<lambda>r.
               for_loop [0..2] (\<lambda>c. cant_assign_at ndebug dig (rb + r) (cb + c))) b2 = Inr b'"
    unfolding Board_assign_def Let_def row_def col_def rb_def cb_def
    by (elim and_then_InrE) blast
  have "shrinks b (b\<lparr>cells := (cells b)(i := (cells b i)\<lparr>assigned := dig\<rparr>)\<rparr>)"
    by (simp add: shrinks_def)
  moreover have "shrinks (b\<lparr>cells := (cells b)(i := (cells b i)\<lparr>assigned := dig\<rparr>)\<rparr>) b1"
    using l1 by (rule for_loop_shrinks [rotated]) (rule cant_assign_at_shrinks)
  moreover have "shrinks b1 b2"
    using l2 by (rule for_loop_shrinks [rotated]) (rule cant_assign_at_shrinks)
  moreover have "shrinks b2 b'"
  proof (rule for_loop_shrinks [OF _ l3])
    fix r s s'
    assume "for_loop [0..2] (\<lambda>c. cant_assign_at ndebug dig (rb + r) (cb + c)) s = Inr s'"
    then show "shrinks s s'"
      by (rule for_loop_shrinks [rotated]) (rule cant_assign_at_shrinks)
  qed
  ultimately show ?thesis
    by (blast intro: shrinks_trans)
qed

lemma assign_calls_shrinks:
  "assign_calls ndebug calls b = Inr b' \<Longrightarrow> shrinks b b'"
proof (induction calls arbitrary: b)
  case Nil
  then show ?case by (simp add: shrinks_refl)
next
  case (Cons call calls)
  obtain pos dig where call: "call = (pos, dig)"
    by (cases call)
  from Cons.prems obtain t where
    t: "Board_assign ndebug b pos dig = Inr t" "assign_calls ndebug calls t = Inr b'"
    unfolding call by (auto elim: and_then_InrE)
  show ?case
    using Board_assign_shrinks [OF t(1)] Cons.IH [OF t(2)] by (rule shrinks_trans)
qed

lemma Cell_assignable_dig_ok:
  "1 \<le> dig \<Longrightarrow> dig \<le> 9
   \<Longrightarrow> Cell_assignable_dig ndebug c dig = Inr (bit (assignable c) (nat dig))"
  by (simp add: Cell_assignable_dig_def check_assert_holds shift_one_def and_then_Inr
      bit_iff_and_push_bit_not_eq_0)

lemma candidates_iff:
  "dig \<in> candidates c \<longleftrightarrow> 1 \<le> dig \<and> dig \<le> 9 \<and> bit (assignable c) (nat dig)"
  by (auto simp add: candidates_def Cell_assignable_dig_ok)

text \<open>
  C4. For every cell, the candidate set after any sequence of \<open>assign\<close> calls is a
  subset of the candidate set before the calls: \<open>cant_assign\<close> only clears bits. This
  holds for every sequence of calls that returns, in both builds.
\<close>

theorem candidates_never_grow:
  assumes "assign_calls ndebug calls b = Inr b'"
  shows "candidates (cells b' q) \<subseteq> candidates (cells b q)"
  using assign_calls_shrinks [OF assms]
  by (auto simp add: candidates_iff shrinks_def)

theorem candidates_never_grow_witness:
  "\<exists>b'. assign_calls False [(0, 5), (1, 3)] Board_init = Inr b' \<and>
        candidates (cells b' 2) \<subseteq> candidates (cells Board_init 2)"
proof -
  obtain b' where h: "assign_calls False [(0, 5), (1, 3)] Board_init = Inr b'"
    by (simp add: Board_assign_ok and_then_Inr)
  show ?thesis
    using h candidates_never_grow [OF h, of 2] by blast
qed

section \<open>The frame of \<open>assign\<close>\<close>

lemma assignable_clear_digit_bit:
  "bit (assignable (clear_digit dig c)) n \<longleftrightarrow> bit (assignable c) n \<and> n \<noteq> nat dig"
  by (auto simp add: clear_digit_def bit_and_iff bit_not_iff bit_exp_iff
      dest: bit_imp_le_length)

lemma candidates_clear_digit:
  "candidates (clear_digit dig c) = candidates c - {dig}"
  by (auto simp add: candidates_iff assignable_clear_digit_bit)

lemma candidates_set_assigned:
  "candidates (cells (set_assigned p dig b) q) = candidates (cells b q)"
  by (auto simp add: candidates_iff set_assigned_def)

lemma candidates_forbid_set:
  "candidates (cells (forbid_set S dig b) q) =
     (if q \<in> S then candidates (cells b q) - {dig} else candidates (cells b q))"
  by (simp add: forbid_set_def candidates_clear_digit)

lemma self_in_unit: "p < 81 \<Longrightarrow> p \<in> unit_cells p"
  by (simp add: unit_cells_def same_unit_def)

lemma unit_cells_peers: "p < 81 \<Longrightarrow> unit_cells p = insert p (set (peers p))"
  by (auto simp add: unit_cells_def peers_def same_unit_def)

lemma assignable_Cell_init_mask: "assignable Cell_init = push_bit 1 (mask 9)"
  by (simp add: Cell_init_def mask_eq_exp_minus_1)

lemma assignable_Cell_init: "bit (assignable Cell_init) n \<longleftrightarrow> 1 \<le> n \<and> n \<le> 9"
  unfolding assignable_Cell_init_mask bit_push_bit_iff bit_mask_iff
  by (auto simp del: possible_bit_word simp add: possible_bit_word)

lemma candidates_Cell_init: "candidates Cell_init = {1..9}"
  by (auto simp add: candidates_iff assignable_Cell_init)

lemma grid_cells_image:
  assumes "R \<subseteq> {0..<9}" "C \<subseteq> {0..<9}"
  shows "grid_cells R C = (\<lambda>(r, c). r * 9 + c) ` (R \<times> C)"
proof (intro set_eqI iffI)
  fix q assume "q \<in> grid_cells R C"
  then have "(row_of q, col_of q) \<in> R \<times> C" "q = row_of q * 9 + col_of q"
    by (simp_all add: grid_cells_def row_of_def col_of_def)
  then show "q \<in> (\<lambda>(r, c). r * 9 + c) ` (R \<times> C)"
    by (metis (mono_tags, lifting) image_eqI case_prod_conv)
next
  fix q assume "q \<in> (\<lambda>(r, c). r * 9 + c) ` (R \<times> C)"
  then obtain r c where rc: "r \<in> R" "c \<in> C" "q = r * 9 + c"
    by auto
  then have "r < 9" "c < 9"
    using assms by auto
  then show "q \<in> grid_cells R C"
    using rc by (simp add: grid_cells_def row_of_def col_of_def)
qed

lemma card_grid_cells:
  assumes "R \<subseteq> {0..<9}" "C \<subseteq> {0..<9}"
  shows "card (grid_cells R C) = card R * card C"
proof -
  have "inj_on (\<lambda>(r, c). r * 9 + c) (R \<times> C)"
  proof (rule inj_onI)
    fix x y assume x: "x \<in> R \<times> C" and y: "y \<in> R \<times> C"
      and e: "(case x of (r, c) \<Rightarrow> r * 9 + c) = (case y of (r, c) \<Rightarrow> r * 9 + c)"
    obtain r c r' c' where xy: "x = (r, c)" "y = (r', c')"
      by (cases x, cases y)
    have "c < 9" "c' < 9"
      using x y assms xy by auto
    moreover have "r * 9 + c = r' * 9 + c'"
      using e xy by simp
    ultimately have "r = r' \<and> c = c'"
      by arith
    then show "x = y"
      using xy by simp
  qed
  then show ?thesis
    using assms by (simp add: grid_cells_image card_image card_cartesian_product)
qed

lemma div3_eq_iff: "j div 3 = m \<longleftrightarrow> m * 3 \<le> j \<and> j < m * 3 + 3" for j m :: nat
proof
  assume a: "j div 3 = m"
  have "j = j div 3 * 3 + j mod 3"
    by simp
  then have "j = m * 3 + j mod 3"
    using a by simp
  moreover have "j mod 3 < 3"
    by simp
  ultimately show "m * 3 \<le> j \<and> j < m * 3 + 3"
    by linarith
next
  assume "m * 3 \<le> j \<and> j < m * 3 + 3"
  then show "j div 3 = m"
    by (intro div_nat_eqI) simp_all
qed

lemma band_interval:
  assumes "k < 9"
  shows "band k = {k div 3 * 3..<k div 3 * 3 + 3}"
proof -
  have "k div 3 < 3"
    using assms by (simp add: div_less_iff_less_mult)
  then have "k div 3 * 3 + 3 \<le> 9"
    by simp
  then show ?thesis
    unfolding band_def div3_eq_iff by auto
qed

lemma card_band_minus:
  assumes "k < 9"
  shows "card (band k - {k}) = 2"
proof -
  have "k \<in> band k"
    using assms by (simp add: band_def)
  moreover have "card (band k) = 3"
    using assms by (simp add: band_interval)
  moreover have "finite (band k)"
    by (simp add: band_def)
  ultimately show ?thesis
    by simp
qed

lemma cell_eq_iff: "p = q \<longleftrightarrow> row_of p = row_of q \<and> col_of p = col_of q"
  unfolding row_of_def col_of_def by (metis div_mult_mod_eq)

lemma peers_partition:
  assumes "p < 81"
  shows "set (peers p) =
         grid_cells {row_of p} ({0..<9} - {col_of p}) \<union>
         grid_cells ({0..<9} - {row_of p}) {col_of p} \<union>
         grid_cells (band (row_of p) - {row_of p}) (band (col_of p) - {col_of p})"
proof -
  have r: "row_of q < 9" if "q < 81" for q
    using that by (simp add: row_of_def div9_less)
  have c: "col_of q < 9" for q
    by (simp add: col_of_def)
  show ?thesis
    unfolding peers_def grid_cells_def band_def same_unit_def
    using cell_eq_iff [of _ p] r c by auto
qed

lemma peers_20:
  assumes "p < 81"
  shows "length (peers p) = 20"
proof -
  have r: "row_of p < 9"
    using assms by (simp add: row_of_def div9_less)
  have c: "col_of p < 9"
    by (simp add: col_of_def)
  define A where "A = grid_cells {row_of p} ({0..<9} - {col_of p})"
  define B where "B = grid_cells ({0..<9} - {row_of p}) {col_of p}"
  define C where "C = grid_cells (band (row_of p) - {row_of p}) (band (col_of p) - {col_of p})"
  have fin: "finite A" "finite B" "finite C"
    by (simp_all add: A_def B_def C_def grid_cells_def)
  have "card A = 8"
    unfolding A_def using r c by (subst card_grid_cells) auto
  moreover have "card B = 8"
    unfolding B_def using r c by (subst card_grid_cells) auto
  moreover have "card C = 4"
  proof -
    have sub: "band k - {k} \<subseteq> {0..<9}" for k
      by (auto simp add: band_def)
    show ?thesis
      unfolding C_def card_grid_cells [OF sub sub] using r c by (simp add: card_band_minus)
  qed
  moreover have "A \<inter> B = {}" "(A \<union> B) \<inter> C = {}"
    by (auto simp add: A_def B_def C_def grid_cells_def)
  ultimately have "card (A \<union> B \<union> C) = 20"
    using fin by (simp add: card_Un_disjoint)
  moreover have "distinct (peers p)"
    by (simp add: peers_def)
  ultimately show ?thesis
    using peers_partition [OF assms] distinct_card [of "peers p"]
    by (simp add: A_def B_def C_def)
qed

lemma Board_assign_after:
  "0 \<le> pos \<Longrightarrow> pos < 81 \<Longrightarrow> 1 \<le> dig \<Longrightarrow> dig \<le> 9
   \<Longrightarrow> Board_assign ndebug b pos dig = Inr (after_assign b (nat pos) dig)"
  by (simp add: Board_assign_ok after_assign_def)

lemma assigned_after_assign:
  "assigned (cells (after_assign b p dig) q) = (if q = p then dig else assigned (cells b q))"
  by (simp add: after_assign_def assigned_forbid_set assigned_set_assigned)

lemma candidates_after_assign:
  "candidates (cells (after_assign b p dig) q) =
     (if q \<in> unit_cells p then candidates (cells b q) - {dig} else candidates (cells b q))"
  by (simp add: after_assign_def candidates_forbid_set candidates_set_assigned)

text \<open>
  C5, as the code has it. After \<open>assign(pos, dig)\<close> the digit is removed from the
  candidate set of the cell \<open>pos\<close> itself and of each of its 20 peers (the loops run
  over the whole row, column and box, the cell included), and the candidate set of every
  other cell is unchanged. \<open>cant_assign\<close> does not look at \<open>assigned_\<close>: it clears the bit of
  an assigned cell too.
\<close>

theorem assign_frame:
  assumes "0 \<le> pos" "pos < 81" "1 \<le> dig" "dig \<le> 9"
  shows "\<exists>b'. Board_assign ndebug b pos dig = Inr b' \<and>
           (\<forall>q. candidates (cells b' q) =
                  (if q = nat pos \<or> q \<in> set (peers (nat pos))
                   then candidates (cells b q) - {dig} else candidates (cells b q))) \<and>
           length (peers (nat pos)) = 20 \<and> distinct (peers (nat pos))"
proof -
  have "distinct (peers (nat pos))"
    by (simp add: peers_def)
  moreover have "length (peers (nat pos)) = 20"
    using assms by (intro peers_20) simp
  ultimately show ?thesis
    using assms
    by (simp add: Board_assign_ok candidates_forbid_set candidates_set_assigned
        unit_cells_peers)
qed

theorem assign_frame_witness:
  "\<exists>b'. Board_assign False Board_init 40 7 = Inr b' \<and>
        candidates (cells b' 40) = {1..9} - {7} \<and>
        candidates (cells b' 0) = {1..9}"
proof -
  have "40 \<notin> set (peers 40)" "0 \<notin> set (peers 40)"
    by (simp_all add: peers_def same_unit_def row_of_def col_of_def)
  then show ?thesis
    using assign_frame [of 40 7 False Board_init]
    by (auto simp add: Board_init_def candidates_Cell_init)
qed

text \<open>
  C5 as stated fails: on the empty board \<open>assign(0, 5)\<close> removes 5 from the candidate
  set of cell 0 itself, and the following \<open>assign(1, 6)\<close> removes 6 from the candidate
  set of cell 0, which is assigned by then. (\<open>after_assign b p dig\<close> is the board that
  \<open>assign\<close> returns, as the first and the sixth conjunct say.)
\<close>

theorem assign_frame_counterexample:
  "Board_assign False Board_init 0 5 = Inr (after_assign Board_init 0 5) \<and>
   5 \<in> candidates (cells Board_init 0) \<and>
   5 \<notin> candidates (cells (after_assign Board_init 0 5) 0) \<and>
   assigned (cells (after_assign Board_init 0 5) 0) = 5 \<and>
   6 \<in> candidates (cells (after_assign Board_init 0 5) 0) \<and>
   Board_assign False (after_assign Board_init 0 5) 1 6 =
     Inr (after_assign (after_assign Board_init 0 5) 1 6) \<and>
   6 \<notin> candidates (cells (after_assign (after_assign Board_init 0 5) 1 6) 0)"
proof -
  have u: "0 \<in> unit_cells 0" "0 \<in> unit_cells (Suc 0)"
    by (simp_all add: unit_cells_def same_unit_def row_of_def col_of_def)
  show ?thesis
    using u
    by (simp add: Board_assign_after candidates_after_assign assigned_after_assign
        Board_init_def candidates_Cell_init)
qed

section \<open>\<open>find\<close> is the search of the specification\<close>

lemma unassigned_after_assign_less:
  assumes "p < 81" "assigned (cells b p) = 0" "dig \<noteq> 0"
  shows "card (unassigned (after_assign b p dig)) < card (unassigned b)"
proof (rule psubset_card_mono [OF finite_unassigned])
  have "p \<in> unassigned b"
    using assms by (simp add: unassigned_def)
  moreover have "p \<notin> unassigned (after_assign b p dig)"
    using assms by (simp add: unassigned_def assigned_after_assign)
  moreover have "unassigned (after_assign b p dig) \<subseteq> unassigned b"
    using assms by (auto simp add: unassigned_def assigned_after_assign split: if_splits)
  ultimately show "unassigned (after_assign b p dig) \<subset> unassigned b"
    by blast
qed

termination search
proof (relation "measures [\<lambda>(b, p). card (unassigned b), \<lambda>(b, p). 81 - p]")
  show "wf (measures [\<lambda>(b, p). card (unassigned b), \<lambda>(b, p). 81 - p])"
    by simp
next
  fix b :: Board and p :: nat
  assume "\<not> 81 \<le> p"
  then show "((b, Suc p), b, p) \<in> measures [\<lambda>(b, p). card (unassigned b), \<lambda>(b, p). 81 - p]"
    by auto
next
  fix b :: Board and p :: nat and dig :: int
  assume "\<not> 81 \<le> p" "\<not> assigned (cells b p) \<noteq> 0"
    "dig \<in> set (filter (\<lambda>dig. dig \<in> candidates (cells b p)) [1..9])"
  then have "card (unassigned (after_assign b p dig)) < card (unassigned b)"
    by (intro unassigned_after_assign_less) auto
  then show "((after_assign b p dig, p), b, p)
      \<in> measures [\<lambda>(b, p). card (unassigned b), \<lambda>(b, p). 81 - p]"
    by simp
qed

declare search.simps [simp del]

lemma for_loop_emit:
  assumes "\<And>i. i \<in> set xs \<Longrightarrow> P i \<Longrightarrow> f i = Inr (g i)"
  shows "for_loop xs (\<lambda>i out. if P i then and_then (f i) (\<lambda>out'. Inr (out @ out')) else Inr out) acc
         = Inr (acc @ concat (map g (filter P xs)))"
  using assms
proof (induction xs arbitrary: acc)
  case Nil
  then show ?case by simp
next
  case (Cons x xs)
  have rest: "for_loop xs (\<lambda>i out. if P i then and_then (f i) (\<lambda>out'. Inr (out @ out')) else Inr out) u
         = Inr (u @ concat (map g (filter P xs)))" for u
    using Cons.prems by (intro Cons.IH) simp_all
  show ?case
  proof (cases "P x")
    case True
    then have "f x = Inr (g x)"
      using Cons.prems by simp
    with True show ?thesis
      by (simp add: and_then_Inr rest)
  next
    case False
    then show ?thesis
      by (simp add: and_then_Inr rest)
  qed
qed

lemma no_candidates: "assignable c = 0 \<Longrightarrow> candidates c = {}"
  by (auto simp add: candidates_iff)

lemma Board_find_search:
  "p \<le> 81 \<Longrightarrow> Board_find ndebug b (int p) = Inr (search b p)"
proof (induction b p rule: search.induct)
  case (1 b p)
  show ?case
  proof (cases "p = 81")
    case True
    then show ?thesis
      by (subst Board_find.simps, subst search.simps) (simp add: num_cells_def)
  next
    case False
    then have p: "p < 81" "\<not> 81 \<le> p" "int p \<noteq> num_cells"
      using "1.prems" by (simp_all add: num_cells_def)
    have cell: "Board_cell ndebug (int p) = Inr p"
      using p by (simp add: Board_cell_ok)
    show ?thesis
    proof (cases "assigned (cells b p) \<noteq> 0")
      case True
      have "Board_find ndebug b (int (Suc p)) = Inr (search b (Suc p))"
        using p by (intro "1.IH"(1) [OF p(2) True]) simp
      moreover have "int (Suc p) = int p + 1"
        by simp
      moreover have "search b p = search b (Suc p)"
        using p True by (subst search.simps) simp
      moreover have "Board_find ndebug b (int p) = Board_find ndebug b (int p + 1)"
        using p True by (subst Board_find.simps) (simp add: cell and_then_Inr)
      ultimately show ?thesis
        by (simp add: add.commute)
    next
      case False
      define x where "x = cells b p"
      have body: "for_loop [1..9] (\<lambda>dig out.
              and_then (Cell_assignable_dig ndebug x dig) (\<lambda>a.
              if a then
                and_then (Board_assign ndebug b (int p) dig) (\<lambda>next.
                and_then (Board_find ndebug next (int p)) (\<lambda>out'.
                Inr (out @ out')))
              else Inr out)) [] =
            for_loop [1..9] (\<lambda>dig out.
              if dig \<in> candidates x
              then and_then (Board_find ndebug (after_assign b p dig) (int p))
                     (\<lambda>out'. Inr (out @ out'))
              else Inr out) []"
      proof (rule for_loop_cong [OF refl refl])
        fix dig :: int and u
        assume "dig \<in> set [1..9]"
        then have d: "1 \<le> dig" "dig \<le> 9" by simp_all
        show "and_then (Cell_assignable_dig ndebug x dig) (\<lambda>a.
              if a then
                and_then (Board_assign ndebug b (int p) dig) (\<lambda>next.
                and_then (Board_find ndebug next (int p)) (\<lambda>out'. Inr (u @ out')))
              else Inr u) =
              (if dig \<in> candidates x
               then and_then (Board_find ndebug (after_assign b p dig) (int p))
                      (\<lambda>out'. Inr (u @ out'))
               else Inr u)"
          using d p
          by (simp add: Cell_assignable_dig_ok and_then_Inr candidates_iff Board_assign_after)
      qed
      have rec: "Board_find ndebug (after_assign b p dig) (int p) =
                 Inr (search (after_assign b p dig) p)"
        if "dig \<in> set [1..9]" "dig \<in> candidates x" for dig
        using that p
        by (intro "1.IH"(2) [OF p(2) False]) (simp_all add: x_def)
      have loop: "for_loop [1..9] (\<lambda>dig out.
              if dig \<in> candidates x
              then and_then (Board_find ndebug (after_assign b p dig) (int p))
                     (\<lambda>out'. Inr (out @ out'))
              else Inr out) [] =
            Inr ([] @ concat (map (\<lambda>dig. search (after_assign b p dig) p)
                                 (filter (\<lambda>dig. dig \<in> candidates x) [1..9])))"
        by (rule for_loop_emit) (rule rec)
      have srch: "search b p = concat (map (\<lambda>dig. search (after_assign b p dig) p)
                                 (filter (\<lambda>dig. dig \<in> candidates x) [1..9]))"
        using p False by (subst search.simps) (simp add: x_def)
      have empty: "filter (\<lambda>dig. dig \<in> candidates x) [1..9] = []" if "assignable x = 0"
        using no_candidates [OF that] by simp
      have "Board_find ndebug b (int p) =
            (if \<not> Cell_assignable x then Inr []
             else for_loop [1..9] (\<lambda>dig out.
              and_then (Cell_assignable_dig ndebug x dig) (\<lambda>a.
              if a then
                and_then (Board_assign ndebug b (int p) dig) (\<lambda>next.
                and_then (Board_find ndebug next (int p)) (\<lambda>out'.
                Inr (out @ out')))
              else Inr out)) [])"
        using p False
        by (subst Board_find.simps) (simp add: cell and_then_Inr x_def Let_def)
      then show ?thesis
        unfolding body loop srch
        by (simp add: Cell_assignable_def empty)
    qed
  qed
qed

section \<open>The uniqueness invariant\<close>

lemma same_unit_sym: "same_unit p q = same_unit q p"
  by (auto simp add: same_unit_def)

lemma in_unit_cells: "q \<in> unit_cells p \<longleftrightarrow> q < 81 \<and> same_unit p q"
  by (simp add: unit_cells_def)

lemma candidates_range: "dig \<in> candidates c \<Longrightarrow> 1 \<le> dig \<and> dig \<le> 9"
  by (simp add: candidates_iff)

lemma sound_board_init: "sound_board Board_init"
  by (simp add: sound_board_def unique_digits_def propagated_def digits_in_range_def
      Board_init_def Cell_init_def candidates_iff)

lemma unique_after_assign:
  assumes "unique_digits b" "propagated b" "p < 81" "dig \<in> candidates (cells b p)"
  shows "unique_digits (after_assign b p dig)"
  unfolding unique_digits_def
proof (intro ballI impI)
  fix p1 q1
  assume r: "p1 \<in> {0..<81}" "q1 \<in> {0..<81}"
    and h: "p1 \<noteq> q1 \<and> same_unit p1 q1 \<and> assigned (cells (after_assign b p dig) p1) \<noteq> 0"
  show "assigned (cells (after_assign b p dig) p1) \<noteq> assigned (cells (after_assign b p dig) q1)"
  proof (cases "p1 = p")
    case True
    then have "q1 \<noteq> p" using h by simp
    have "assigned (cells b q1) \<noteq> dig"
    proof
      assume e: "assigned (cells b q1) = dig"
      have "p \<in> unit_cells q1"
        using h True assms(3) by (simp add: in_unit_cells same_unit_sym)
      then have "assigned (cells b q1) \<notin> candidates (cells b p)"
        using assms(2) r(2) by (simp add: propagated_def)
      then show False
        using e assms(4) by simp
    qed
    then show ?thesis
      using True \<open>q1 \<noteq> p\<close> by (simp add: assigned_after_assign)
  next
    case False
    note p1 = this
    show ?thesis
    proof (cases "q1 = p")
      case True
      have "assigned (cells b p1) \<noteq> dig"
      proof
        assume e: "assigned (cells b p1) = dig"
        have "p \<in> unit_cells p1"
          using h True assms(3) by (simp add: in_unit_cells)
        then have "assigned (cells b p1) \<notin> candidates (cells b p)"
          using assms(2) r(1) by (simp add: propagated_def)
        then show False
          using e assms(4) by simp
      qed
      then show ?thesis
        using True p1 by (simp add: assigned_after_assign)
    next
      case False
      then show ?thesis
        using p1 h r assms(1) by (simp add: assigned_after_assign unique_digits_def)
    qed
  qed
qed

lemma propagated_after_assign:
  assumes "propagated b"
  shows "propagated (after_assign b p dig)"
  unfolding propagated_def
proof (intro ballI)
  fix p1 q1
  assume r: "p1 \<in> {0..<81}" "q1 \<in> unit_cells p1"
  show "assigned (cells (after_assign b p dig) p1) \<notin> candidates (cells (after_assign b p dig) q1)"
  proof (cases "p1 = p")
    case True
    then show ?thesis
      using r by (simp add: assigned_after_assign candidates_after_assign)
  next
    case False
    have "assigned (cells b p1) \<notin> candidates (cells b q1)"
      using assms r by (simp add: propagated_def)
    then show ?thesis
      using False by (simp add: assigned_after_assign candidates_after_assign)
  qed
qed

lemma range_after_assign:
  assumes "digits_in_range b" "dig \<in> candidates (cells b p)"
  shows "digits_in_range (after_assign b p dig)"
  using assms candidates_range [OF assms(2)]
  by (simp add: digits_in_range_def assigned_after_assign)

lemma sound_after_assign:
  assumes "sound_board b" "p < 81" "dig \<in> candidates (cells b p)"
  shows "sound_board (after_assign b p dig)"
  using assms
  by (simp add: sound_board_def unique_after_assign propagated_after_assign range_after_assign)

lemma search_sound:
  assumes "sound_board b" "\<forall>q<p. q < 81 \<longrightarrow> assigned (cells b q) \<noteq> 0" "b' \<in> set (search b p)"
  shows "sound_board b' \<and> all_assigned b'"
  using assms
proof (induction b p rule: search.induct)
  case (1 b p)
  show ?case
  proof (cases "81 \<le> p")
    case True
    then have "b' = b"
      using "1.prems"(3) by (subst (asm) search.simps) simp
    moreover have "all_assigned b"
      unfolding all_assigned_def
    proof
      fix q :: nat
      assume q: "q \<in> {0..<81}"
      then have "assigned (cells b q) \<noteq> 0"
        using True "1.prems"(2) by simp
      moreover have "0 \<le> assigned (cells b q)" "assigned (cells b q) \<le> 9"
        using "1.prems"(1) q by (simp_all add: sound_board_def digits_in_range_def)
      ultimately show "1 \<le> assigned (cells b q) \<and> assigned (cells b q) \<le> 9"
        by simp
    qed
    ultimately show ?thesis
      using "1.prems"(1) by simp
  next
    case False
    note p = this
    show ?thesis
    proof (cases "assigned (cells b p) \<noteq> 0")
      case True
      have "b' \<in> set (search b (Suc p))"
        using "1.prems"(3) p True by (subst (asm) search.simps) simp
      moreover have "\<forall>q<Suc p. q < 81 \<longrightarrow> assigned (cells b q) \<noteq> 0"
        using "1.prems"(2) True by (simp add: less_Suc_eq)
      ultimately show ?thesis
        using "1.IH"(1) [OF p True "1.prems"(1)] by simp
    next
      case False
      from "1.prems"(3) obtain dig where
        dig: "dig \<in> set (filter (\<lambda>dig. dig \<in> candidates (cells b p)) [1..9])"
          "b' \<in> set (search (after_assign b p dig) p)"
        using p False by (subst (asm) search.simps) auto
      then have cand: "dig \<in> candidates (cells b p)"
        by simp
      have "sound_board (after_assign b p dig)"
        using "1.prems"(1) p cand by (intro sound_after_assign) simp_all
      moreover have "\<forall>q<p. q < 81 \<longrightarrow> assigned (cells (after_assign b p dig) q) \<noteq> 0"
        using "1.prems"(2) by (simp add: assigned_after_assign)
      ultimately show ?thesis
        using "1.IH"(2) [OF p False dig(1)] dig(2) by simp
    qed
  qed
qed

lemma candidate_calls_sound:
  assumes "sound_board b" "candidate_calls calls b"
  shows "\<exists>b'. assign_calls ndebug calls b = Inr b' \<and> sound_board b'"
  using assms
proof (induction calls arbitrary: b)
  case Nil
  then show ?case by simp
next
  case (Cons call calls)
  obtain pos dig where call: "call = (pos, dig)"
    by (cases call)
  have pos: "0 \<le> pos" "pos < 81" and cand: "dig \<in> candidates (cells b (nat pos))"
    using Cons.prems(2) by (simp_all add: call num_cells_def)
  have dig: "1 \<le> dig" "dig \<le> 9"
    using candidates_range [OF cand] by simp_all
  have step: "Board_assign nd b pos dig = Inr (after_assign b (nat pos) dig)" for nd
    using pos dig by (rule Board_assign_after)
  have "sound_board (after_assign b (nat pos) dig)"
    using Cons.prems(1) pos cand by (intro sound_after_assign) simp_all
  moreover have "candidate_calls calls (after_assign b (nat pos) dig)"
    using Cons.prems(2) by (simp add: call step)
  ultimately show ?case
    using Cons.IH by (simp add: call step and_then_Inr)
qed

lemma candidate_calls_take:
  "candidate_calls calls b \<Longrightarrow> candidate_calls (take n calls) b"
proof (induction calls arbitrary: b n)
  case Nil
  then show ?case by simp
next
  case (Cons call calls)
  obtain pos dig where call: "call = (pos, dig)"
    by (cases call)
  show ?case
  proof (cases n)
    case 0
    then show ?thesis by simp
  next
    case (Suc m)
    then show ?thesis
      using Cons.prems Cons.IH by (auto simp add: call split: sum.splits)
  qed
qed

text \<open>
  C2. For any sequence of \<open>assign\<close> calls on the empty board in which every digit was a
  candidate of its cell when its call was made, after each call (after every prefix of the
  sequence) the calls have returned and no row, column or box holds the same assigned
  digit twice.
\<close>

theorem assign_preserves_uniqueness:
  assumes "candidate_calls calls Board_init" "n \<le> length calls"
  shows "\<exists>b'. assign_calls ndebug (take n calls) Board_init = Inr b' \<and> unique_digits b'"
  using candidate_calls_sound [OF sound_board_init candidate_calls_take [OF assms(1)], of ndebug n]
  by (auto simp add: sound_board_def)

theorem assign_preserves_uniqueness_witness:
  "\<exists>b'. assign_calls False (take 2 [(0, 5), (1, 3), (80, 5)]) Board_init = Inr b' \<and>
        unique_digits b'"
proof -
  have u: "Suc 0 \<in> unit_cells 0" "80 \<notin> unit_cells 0" "80 \<notin> unit_cells (Suc 0)"
    by (simp_all add: unit_cells_def same_unit_def row_of_def col_of_def)
  have "candidate_calls [(0, 5), (1, 3), (80, 5)] Board_init"
    using u
    by (simp add: num_cells_def Board_assign_after candidates_after_assign Board_init_def
        candidates_Cell_init)
  then show ?thesis
    by (rule assign_preserves_uniqueness) simp
qed

text \<open>
  C1. For every board built from the empty one by such a sequence of calls, \<open>find(0)\<close>
  returns, and every board it prints has all 81 cells assigned a digit in 1..9 and
  satisfies the uniqueness invariant.
\<close>

theorem search_soundness:
  assumes "candidate_calls calls Board_init" "assign_calls ndebug calls Board_init = Inr b"
  shows "\<exists>emitted. Board_find ndebug b 0 = Inr emitted \<and>
           (\<forall>b'\<in>set emitted. all_assigned b' \<and> unique_digits b')"
proof -
  have "sound_board b"
    using candidate_calls_sound [OF sound_board_init assms(1), of ndebug] assms(2) by simp
  then have "sound_board b' \<and> all_assigned b'" if "b' \<in> set (search b 0)" for b'
    using that by (intro search_sound [of b 0]) simp_all
  moreover have "Board_find ndebug b 0 = Inr (search b 0)"
    using Board_find_search [of 0 ndebug b] by simp
  ultimately show ?thesis
    by (simp add: sound_board_def)
qed

theorem search_soundness_witness:
  "\<exists>emitted. Board_find False (after_assign Board_init 0 5) 0 = Inr emitted \<and>
      list_all all_assigned emitted \<and> list_all unique_digits emitted"
proof -
  have c: "candidate_calls [(0, 5)] Board_init"
    by (simp add: num_cells_def Board_assign_after Board_init_def candidates_Cell_init)
  have a: "assign_calls False [(0, 5)] Board_init = Inr (after_assign Board_init 0 5)"
    by (simp add: Board_assign_after and_then_Inr)
  show ?thesis
    using search_soundness [OF c a] by (auto simp add: list_all_iff)
qed

section \<open>The empty board\<close>

lemma exact_init: "exact Board_init"
  by (simp add: exact_def Board_init_def candidates_Cell_init)

lemma exactD:
  assumes "exact b" "q < 81" "assigned (cells b q) = 0" "1 \<le> d" "d \<le> 9"
    "d \<notin> candidates (cells b q)"
  shows "\<exists>p\<in>unit_cells q. assigned (cells b p) = d"
proof -
  have "q \<in> {0..<81}" "d \<in> {1..9}"
    using assms by simp_all
  then show ?thesis
    using assms(1,3,6) unfolding exact_def by blast
qed

lemma valid_gridD:
  assumes "valid_grid s" "p < 81" "q < 81" "p \<noteq> q" "same_unit p q"
  shows "s p \<noteq> s q"
proof -
  have "p \<in> {0..<81}" "q \<in> {0..<81}"
    using assms by simp_all
  then show ?thesis
    using assms(1,4,5) unfolding valid_grid_def by blast
qed

lemma exact_after_assign:
  assumes "exact b" "p < 81" "assigned (cells b p) = 0" "1 \<le> dig" "dig \<le> 9"
  shows "exact (after_assign b p dig)"
  unfolding exact_def
proof (intro ballI impI)
  fix q :: nat and d :: int
  assume q: "q \<in> {0..<81}" and d: "d \<in> {1..9}"
    and e: "assigned (cells (after_assign b p dig) q) = 0"
  have qp: "q \<noteq> p"
    using e assms(4) by (auto simp add: assigned_after_assign)
  then have q0: "assigned (cells b q) = 0"
    using e by (simp add: assigned_after_assign)
  show "d \<in> candidates (cells (after_assign b p dig) q) \<or>
        (\<exists>p'\<in>unit_cells q. assigned (cells (after_assign b p dig) p') = d)"
  proof (cases "d \<in> candidates (cells b q)")
    case True
    show ?thesis
    proof (cases "q \<in> unit_cells p \<and> d = dig")
      case True
      then have "p \<in> unit_cells q"
        using assms(2) by (simp add: in_unit_cells same_unit_sym)
      moreover have "assigned (cells (after_assign b p dig) p) = d"
        using True by (simp add: assigned_after_assign)
      ultimately show ?thesis
        by blast
    next
      case False
      then show ?thesis
        using \<open>d \<in> candidates (cells b q)\<close> by (auto simp add: candidates_after_assign)
    qed
  next
    case False
    then obtain p' where p': "p' \<in> unit_cells q" "assigned (cells b p') = d"
      using exactD [OF assms(1) _ q0, of d] q d by auto
    then have "p' \<noteq> p"
      using assms(3) d by auto
    then have "assigned (cells (after_assign b p dig) p') = d"
      using p'(2) by (simp add: assigned_after_assign)
    then show ?thesis
      using p'(1) by blast
  qed
qed

lemma search_complete:
  assumes "exact b" "agrees b s" "valid_grid s"
    "\<forall>q<p. q < 81 \<longrightarrow> assigned (cells b q) \<noteq> 0"
  shows "\<exists>b'\<in>set (search b p). \<forall>q\<in>{0..<81}. assigned (cells b' q) = s q"
  using assms
proof (induction b p rule: search.induct)
  case (1 b p)
  show ?case
  proof (cases "81 \<le> p")
    case True
    then have "search b p = [b]"
      by (subst search.simps) simp
    moreover have "\<forall>q\<in>{0..<81}. assigned (cells b q) = s q"
      using True "1.prems"(2,4) by (auto simp add: agrees_def)
    ultimately show ?thesis
      by simp
  next
    case False
    note p = this
    show ?thesis
    proof (cases "assigned (cells b p) \<noteq> 0")
      case True
      have "search b p = search b (Suc p)"
        using p True by (subst search.simps) simp
      moreover have "\<forall>q<Suc p. q < 81 \<longrightarrow> assigned (cells b q) \<noteq> 0"
        using "1.prems"(4) True by (simp add: less_Suc_eq)
      ultimately show ?thesis
        using "1.IH"(1) [OF p True "1.prems"(1,2,3)] by simp
    next
      case False
      define d where "d = s p"
      have p81: "p \<in> {0..<81}" using p by simp
      have d: "1 \<le> d" "d \<le> 9"
        using "1.prems"(3) p81 by (simp_all add: valid_grid_def d_def)
      have cand: "d \<in> candidates (cells b p)"
      proof (rule ccontr)
        assume "d \<notin> candidates (cells b p)"
        then obtain p' where p': "p' \<in> unit_cells p" "assigned (cells b p') = d"
          using exactD [OF "1.prems"(1), of p d] p d False by auto
        then have "p' \<noteq> p" "p' \<in> {0..<81}" "same_unit p p'"
          using False d by (auto simp add: in_unit_cells)
        moreover have "s p' = d"
          using "1.prems"(2) p' d \<open>p' \<in> {0..<81}\<close> by (auto simp add: agrees_def)
        ultimately show False
          using valid_gridD [OF "1.prems"(3), of p p'] p by (simp add: d_def)
      qed
      have mem: "d \<in> set (filter (\<lambda>dig. dig \<in> candidates (cells b p)) [1..9])"
        using cand d by simp
      have "exact (after_assign b p d)"
        using "1.prems"(1) p False d by (intro exact_after_assign) simp_all
      moreover have "agrees (after_assign b p d) s"
        using "1.prems"(2) by (simp add: agrees_def assigned_after_assign d_def)
      moreover have "\<forall>q<p. q < 81 \<longrightarrow> assigned (cells (after_assign b p d) q) \<noteq> 0"
        using "1.prems"(4) by (simp add: assigned_after_assign)
      ultimately have "\<exists>b'\<in>set (search (after_assign b p d) p).
                         \<forall>q\<in>{0..<81}. assigned (cells b' q) = s q"
        using "1.IH"(2) [OF p False mem] "1.prems"(3) by simp
      moreover have "set (search (after_assign b p d) p) \<subseteq> set (search b p)"
        using p False mem by (subst (2) search.simps) auto
      ultimately show ?thesis
        by blast
    qed
  qed
qed

lemma example_units_distinct:
  "list_all (\<lambda>u. distinct (map (\<lambda>q. example_solution ! q) u)) units"
  by code_simp

lemma example_in_range:
  "list_all (\<lambda>d. 1 \<le> d \<and> d \<le> 9) example_solution"
  by code_simp

lemma cells_in_units:
  "list_all (\<lambda>p. p \<in> set (row_cells (row_of p)) \<and> p \<in> set (col_cells (col_of p)) \<and>
                  p \<in> set (box_cells (row_of p div 3) (col_of p div 3))) [0..<81]"
  by code_simp

lemma unit_lists:
  assumes "p < 81"
  shows "row_cells (row_of p) \<in> set units" "col_cells (col_of p) \<in> set units"
    "box_cells (row_of p div 3) (col_of p div 3) \<in> set units"
proof -
  have r: "row_of p < 9"
    using assms by (simp add: row_of_def div9_less)
  then have "row_of p div 3 < 3"
    by (simp add: div_less_iff_less_mult)
  moreover have c: "col_of p < 9"
    by (simp add: col_of_def)
  then have "col_of p div 3 < 3"
    by (simp add: div_less_iff_less_mult)
  ultimately have "\<exists>br\<in>{0..<3}. box_cells (row_of p div 3) (col_of p div 3) \<in> box_cells br ` {0..<3}"
    by (intro bexI [of _ "row_of p div 3"] imageI) simp_all
  then show "box_cells (row_of p div 3) (col_of p div 3) \<in> set units"
    by (simp add: units_def)
  show "row_cells (row_of p) \<in> set units"
    using r by (simp add: units_def)
  show "col_cells (col_of p) \<in> set units"
    using c by (simp add: units_def)
qed

lemma cell_in_its_units:
  assumes "p < 81"
  shows "p \<in> set (row_cells (row_of p))" "p \<in> set (col_cells (col_of p))"
    "p \<in> set (box_cells (row_of p div 3) (col_of p div 3))"
  using cells_in_units assms by (simp_all add: list_all_iff)

lemma share_a_unit:
  assumes "p < 81" "q < 81" "same_unit p q"
  shows "\<exists>u\<in>set units. p \<in> set u \<and> q \<in> set u"
proof -
  consider "row_of p = row_of q" | "col_of p = col_of q"
    | "row_of p div 3 = row_of q div 3 \<and> col_of p div 3 = col_of q div 3"
    using assms(3) by (auto simp add: same_unit_def)
  then show ?thesis
  proof cases
    case 1
    then show ?thesis
      using unit_lists(1) [OF assms(1)] cell_in_its_units(1) [OF assms(1)]
        cell_in_its_units(1) [OF assms(2)] by auto
  next
    case 2
    then show ?thesis
      using unit_lists(2) [OF assms(1)] cell_in_its_units(2) [OF assms(1)]
        cell_in_its_units(2) [OF assms(2)] by auto
  next
    case 3
    then show ?thesis
      using unit_lists(3) [OF assms(1)] cell_in_its_units(3) [OF assms(1)]
        cell_in_its_units(3) [OF assms(2)] by auto
  qed
qed

lemma valid_example: "valid_grid (\<lambda>q. example_solution ! q)"
  unfolding valid_grid_def
proof (intro conjI ballI impI)
  fix p :: nat
  assume "p \<in> {0..<81}"
  then have "p < length example_solution"
    by (simp add: example_solution_def)
  then show "1 \<le> example_solution ! p" "example_solution ! p \<le> 9"
    using example_in_range by (simp_all add: list_all_length)
next
  fix p q :: nat
  assume r: "p \<in> {0..<81}" "q \<in> {0..<81}" and h: "p \<noteq> q \<and> same_unit p q"
  then obtain u where u: "u \<in> set units" "p \<in> set u" "q \<in> set u"
    using share_a_unit [of p q] by auto
  have "distinct (map (\<lambda>q. example_solution ! q) u)"
    using example_units_distinct u(1) by (simp add: list_all_iff)
  then have "inj_on (\<lambda>q. example_solution ! q) (set u)"
    by (simp add: distinct_map)
  then show "example_solution ! p \<noteq> example_solution ! q"
    using u(2,3) h by (auto dest: inj_onD)
qed

text \<open>
  C3. On a freshly constructed board \<open>find(0)\<close> returns, prints at least one board, and
  every board it prints is fully assigned and satisfies the uniqueness invariant. The
  solved grid of the example in the source is among the grids reached.
\<close>

theorem empty_board_has_solutions:
  "\<exists>emitted. Board_find ndebug Board_init 0 = Inr emitted \<and> emitted \<noteq> [] \<and>
      (\<forall>b'\<in>set emitted. all_assigned b' \<and> unique_digits b')"
proof -
  have f: "Board_find ndebug Board_init 0 = Inr (search Board_init 0)"
    using Board_find_search [of 0 ndebug Board_init] by simp
  have "agrees Board_init (\<lambda>q. example_solution ! q)"
    by (simp add: agrees_def Board_init_def Cell_init_def)
  then have "\<exists>b'\<in>set (search Board_init 0).
          \<forall>q\<in>{0..<81}. assigned (cells b' q) = example_solution ! q"
    using exact_init valid_example by (intro search_complete) simp_all
  then have "search Board_init 0 \<noteq> []"
    by auto
  moreover have "sound_board b' \<and> all_assigned b'" if "b' \<in> set (search Board_init 0)" for b'
    using that sound_board_init by (intro search_sound [of Board_init 0]) simp_all
  ultimately show ?thesis
    using f by (simp add: sound_board_def)
qed

theorem empty_board_has_solutions_witness:
  "\<exists>emitted. Board_find True Board_init 0 = Inr emitted \<and> emitted \<noteq> []"
  using empty_board_has_solutions [of True] by blast

section \<open>The order of the enumeration\<close>

lemma search_keeps:
  assumes "b' \<in> set (search b p)" "assigned (cells b q) \<noteq> 0 \<or> q < p"
  shows "assigned (cells b' q) = assigned (cells b q)"
  using assms
proof (induction b p rule: search.induct)
  case (1 b p)
  show ?case
  proof (cases "81 \<le> p")
    case True
    then show ?thesis
      using "1.prems"(1) by (subst (asm) search.simps) simp
  next
    case False
    note p = this
    show ?thesis
    proof (cases "assigned (cells b p) \<noteq> 0")
      case True
      have "b' \<in> set (search b (Suc p))"
        using "1.prems"(1) p True by (subst (asm) search.simps) simp
      moreover have "assigned (cells b q) \<noteq> 0 \<or> q < Suc p"
        using "1.prems"(2) by auto
      ultimately show ?thesis
        by (rule "1.IH"(1) [OF p True])
    next
      case False
      from "1.prems"(1) obtain dig where
        dig: "dig \<in> set (filter (\<lambda>dig. dig \<in> candidates (cells b p)) [1..9])"
          "b' \<in> set (search (after_assign b p dig) p)"
        using p False by (subst (asm) search.simps) auto
      have "q \<noteq> p"
        using "1.prems"(2) False by auto
      then have same: "assigned (cells (after_assign b p dig) q) = assigned (cells b q)"
        by (simp add: assigned_after_assign)
      then have "assigned (cells (after_assign b p dig) q) \<noteq> 0 \<or> q < p"
        using "1.prems"(2) by simp
      then have "assigned (cells b' q) = assigned (cells (after_assign b p dig) q)"
        by (rule "1.IH"(2) [OF p False dig])
      then show ?thesis
        using same by simp
    qed
  qed
qed

lemma lex_less_append:
  "a < b \<Longrightarrow> lex_less (xs @ a # ys) (xs @ b # zs)"
  by (induction xs) simp_all

lemma lex_less_first_difference:
  assumes "p < n" "\<forall>q<p. f q = g q" "f p < g p"
  shows "lex_less (map f [0..<n]) (map g [0..<n])"
proof -
  have split: "[0..<n] = [0..<p] @ p # [Suc p..<n]"
    using assms(1) by (metis less_imp_add_positive upt_add_eq_append upt_conv_Cons le_add1 add_0)
  have eq: "map f [0..<p] = map g [0..<p]"
    using assms(2) by simp
  show ?thesis
    unfolding split map_append list.map eq using assms(3) by (rule lex_less_append)
qed

lemma sorted_wrt_concat_map:
  assumes "sorted_wrt (<) ds" "\<And>d. d \<in> set ds \<Longrightarrow> sorted_wrt R (F d)"
    "\<And>d e x y. d \<in> set ds \<Longrightarrow> e \<in> set ds \<Longrightarrow> d < e \<Longrightarrow> x \<in> set (F d) \<Longrightarrow> y \<in> set (F e)
       \<Longrightarrow> R x y"
  shows "sorted_wrt R (concat (map F ds))"
  using assms
proof (induction ds)
  case Nil
  then show ?case by simp
next
  case (Cons d ds)
  have "sorted_wrt R (concat (map F ds))"
  proof (rule Cons.IH)
    show "sorted_wrt (<) ds"
      using Cons.prems(1) by simp
  next
    fix e assume "e \<in> set ds"
    then show "sorted_wrt R (F e)"
      using Cons.prems(2) [of e] by simp
  next
    fix e e' x y
    assume "e \<in> set ds" "e' \<in> set ds" "e < e'" "x \<in> set (F e)" "y \<in> set (F e')"
    then show "R x y"
      using Cons.prems(3) [of e e' x y] by simp
  qed
  moreover have "sorted_wrt R (F d)"
    using Cons.prems(2) by simp
  moreover have "R x y" if "x \<in> set (F d)" "y \<in> set (concat (map F ds))" for x y
  proof -
    from that(2) obtain e where e: "e \<in> set ds" "y \<in> set (F e)"
      by auto
    then have "d < e"
      using Cons.prems(1) by simp
    then show ?thesis
      using Cons.prems(3) [of d e x y] e that(1) by simp
  qed
  ultimately show ?case
    by (simp add: sorted_wrt_append)
qed

lemma digits_ascending: "sorted_wrt (<) (filter P [1..(9::int)])"
  by (intro sorted_wrt_filter) (simp add: strict_sorted_iff)

lemma search_sorted: "sorted_wrt (\<lambda>x y. lex_less (digits x) (digits y)) (search b p)"
proof (induction b p rule: search.induct)
  case (1 b p)
  show ?case
  proof (cases "81 \<le> p")
    case True
    then show ?thesis
      by (subst search.simps) simp
  next
    case False
    note p = this
    show ?thesis
    proof (cases "assigned (cells b p) \<noteq> 0")
      case True
      then show ?thesis
        using "1.IH"(1) [OF p True] p by (subst search.simps) simp
    next
      case False
      define ds where "ds = filter (\<lambda>dig. dig \<in> candidates (cells b p)) [1..9]"
      have "sorted_wrt (\<lambda>x y. lex_less (digits x) (digits y))
              (concat (map (\<lambda>dig. search (after_assign b p dig) p) ds))"
      proof (rule sorted_wrt_concat_map)
        show "sorted_wrt (<) ds"
          unfolding ds_def by (rule digits_ascending)
      next
        fix d assume "d \<in> set ds"
        then show "sorted_wrt (\<lambda>x y. lex_less (digits x) (digits y)) (search (after_assign b p d) p)"
          unfolding ds_def by (rule "1.IH"(2) [OF p False])
      next
        fix d e x y
        assume de: "d < e"
          and x: "x \<in> set (search (after_assign b p d) p)"
          and y: "y \<in> set (search (after_assign b p e) p)"
          and mem: "d \<in> set ds"
        have d0: "d \<noteq> 0" "e \<noteq> 0"
          using mem de by (auto simp add: ds_def)
        have "assigned (cells x q) = assigned (cells y q)" if "q < p" for q
          using search_keeps [OF x, of q] search_keeps [OF y, of q] that
          by (simp add: assigned_after_assign)
        moreover have "assigned (cells x p) = d" "assigned (cells y p) = e"
          using search_keeps [OF x, of p] search_keeps [OF y, of p] d0
          by (simp_all add: assigned_after_assign)
        ultimately show "lex_less (digits x) (digits y)"
          unfolding digits_def using p de
          by (intro lex_less_first_difference [of p]) simp_all
      qed
      then show ?thesis
        using p False by (subst search.simps) (simp add: ds_def)
    qed
  qed
qed

text \<open>
  C6. \<open>find\<close> is a function of the board, so every run on the same board prints the
  same boards in the same order. On every board \<open>find(0)\<close> returns, and its emissions are
  those of the search of the specification (row-major scan for the first empty cell,
  candidate digits in ascending order), in that order; read as 81 digits in row-major
  order they are strictly increasing in the lexicographic order.
\<close>

theorem enumeration_order:
  "Board_find ndebug b 0 = Inr (search b 0) \<and>
   sorted_wrt (\<lambda>x y. lex_less (digits x) (digits y)) (search b 0)"
  using Board_find_search [of 0 ndebug b] search_sorted [of b 0] by simp

theorem enumeration_order_witness:
  "Board_find True Board_init 0 = Inr (search Board_init 0) \<and>
   sorted_wrt (\<lambda>x y. lex_less (digits x) (digits y)) (search Board_init 0)"
  using enumeration_order [of True Board_init] .

section \<open>Rendering\<close>

declare show_nat.simps [simp del]

lemma show_int_digit:
  assumes "1 \<le> d" "d \<le> 9"
  shows "show_int d = [char_of (48 + nat d)]"
proof -
  have "nat d < 10"
    using assms by simp
  then show ?thesis
    using assms by (simp add: show_int_def show_nat.simps [of "nat d"])
qed

lemma upto_0_8: "[0..8] = [0, 1, 2, 3, 4, 5, 6, 7, 8 :: int]"
  by (simp add: upto_rec1)

lemma for_loop_append:
  assumes "\<And>i s. i \<in> set xs \<Longrightarrow> body i s = Inr (s @ f i)"
  shows "for_loop xs body s = Inr (s @ concat (map f xs))"
  using assms
proof (induction xs arbitrary: s)
  case Nil
  then show ?case by simp
next
  case (Cons x xs)
  have "for_loop xs body u = Inr (u @ concat (map f xs))" for u
    using Cons.prems by (intro Cons.IH) simp
  then show ?case
    using Cons.prems [of x s] by (simp add: and_then_Inr)
qed

lemma print_row:
  assumes "all_assigned b" "r < 9"
  shows "for_loop [0..8] (\<lambda>c out.
               and_then (Board_cell_rc ndebug (int r) c) (\<lambda>j.
               let x = cells b j;
                   out1 = (if assigned x \<noteq> 0 then out @ show_int (assigned x)
                           else out @ [CHR ''_''])
               in Inr (if c = 2 \<or> c = 5 then out1 @ [CHR '' ''] else out1))) out
         = Inr (out @ row_text b r)"
proof -
  have a: "1 \<le> assigned (cells b (r * 9 + c)) \<and> assigned (cells b (r * 9 + c)) \<le> 9"
    if "c < 9" for c
  proof -
    have "r * 9 + c \<in> {0..<81}"
      using assms(2) that by simp
    then show ?thesis
      using assms(1) unfolding all_assigned_def by blast
  qed
  have n: "nat (int r * 9 + int c) = r * 9 + c" for c
    by (simp add: nat_add_distrib nat_mult_distrib)
  show ?thesis
    unfolding upto_0_8 for_loop.simps
    using assms(2) a [of 0] a [of 1] a [of 2] a [of 3] a [of 4] a [of 5] a [of 6] a [of 7] a [of 8]
      n [of 0] n [of 1] n [of 2] n [of 3] n [of 4] n [of 5] n [of 6] n [of 7] n [of 8]
    by (simp add: Board_cell_rc_ok and_then_Inr Let_def show_int_digit row_text_def)
qed

lemma upt_0_9: "[0..<9] = [0, 1, 2, 3, 4, 5, 6, 7, 8 :: nat]"
  by code_simp

text \<open>
  C9. For a board with all 81 cells assigned a digit in 1..9 (every board the search
  prints for a well-formed input), \<open>print\<close> appends exactly nine lines, line \<open>r\<close> holding
  the nine digits of row \<open>r\<close> in column order with one space after the third and one
  after the sixth, and then one empty line.
\<close>

theorem print_format:
  assumes "all_assigned b"
  shows "Board_print ndebug b out = Inr (out @ render b)"
proof -
  have row: "and_then
            (for_loop [0..8] (\<lambda>c out.
               and_then (Board_cell_rc ndebug r c) (\<lambda>j.
               let x = cells b j;
                   out1 = (if assigned x \<noteq> 0 then out @ show_int (assigned x)
                           else out @ [CHR ''_''])
               in Inr (if c = 2 \<or> c = 5 then out1 @ [CHR '' ''] else out1))) s)
            (\<lambda>out. Inr (out @ [newline])) = Inr (s @ (row_text b (nat r) @ [newline]))"
    if "r \<in> set [0..8]" for r s
  proof -
    have "nat r < 9" "int (nat r) = r"
      using that by auto
    then show ?thesis
      using print_row [OF assms, of "nat r" ndebug s] by (simp add: and_then_Inr)
  qed
  have "for_loop [0..8] (\<lambda>r out.
          and_then
            (for_loop [0..8] (\<lambda>c out.
               and_then (Board_cell_rc ndebug r c) (\<lambda>j.
               let x = cells b j;
                   out1 = (if assigned x \<noteq> 0 then out @ show_int (assigned x)
                           else out @ [CHR ''_''])
               in Inr (if c = 2 \<or> c = 5 then out1 @ [CHR '' ''] else out1))) out)
            (\<lambda>out. Inr (out @ [newline]))) out
        = Inr (out @ concat (map (\<lambda>r. row_text b (nat r) @ [newline]) [0..8]))"
    by (rule for_loop_append) (rule row)
  moreover have "map (\<lambda>r. row_text b (nat r) @ [newline]) [0..8] =
                 map (\<lambda>r. row_text b r @ [newline]) [0..<9]"
    unfolding upto_0_8 upt_0_9 by simp
  ultimately show ?thesis
    by (simp add: Board_print_def and_then_Inr render_def)
qed

lemma render_example: "render example_board = example_text"
  by code_simp

lemma all_assigned_example: "all_assigned example_board"
  unfolding all_assigned_def
proof
  fix p :: nat
  assume "p \<in> {0..<81}"
  then have "p < length example_solution"
    by (simp add: example_solution_def)
  then show "1 \<le> assigned (cells example_board p) \<and> assigned (cells example_board p) \<le> 9"
    using example_in_range by (simp add: list_all_length example_board_def)
qed

theorem print_format_witness: "Board_print False example_board [] = Inr example_text"
  using print_format [OF all_assigned_example, of False "[]"] by (simp add: render_example)

section \<open>The parser\<close>

lemma main_step_underscore:
  "main_step ndebug CHR ''_'' (b, pos) = and_then (increment pos) (\<lambda>pos'. Inr (b, pos'))"
  by (simp add: main_step_def)

lemma main_step_digit:
  assumes "isdigit (int (of_char ch))"
  shows "main_step ndebug ch (b, pos) =
         and_then (if pos < 81 then Board_assign ndebug b pos (int (of_char ch) - 48) else Inr b)
           (\<lambda>b'. and_then (increment pos) (\<lambda>pos'. Inr (b', pos')))"
  using assms by (auto simp add: main_step_def isdigit_def num_cells_def Let_def)

lemma main_step_other:
  assumes "\<not> counted ch"
  shows "main_step ndebug ch (b, pos) = Inr (b, pos)"
proof -
  have "int (of_char ch) \<noteq> 95"
  proof
    assume "int (of_char ch) = 95"
    then have "(of_char ch :: nat) = of_char CHR ''_''"
      by simp
    then have "ch = CHR ''_''"
      by (simp only: of_char_eq_iff)
    then show False
      using assms by (simp add: counted_def)
  qed
  then show ?thesis
    using assms by (simp add: main_step_def counted_def Let_def)
qed

lemma main_step_result:
  assumes "0 \<le> pos"
  shows "case main_step ndebug ch (b, pos) of
           Inl e \<Rightarrow> e = AssertionFailed DigInRange \<or> e = UndefinedBehaviour SignedOverflow
         | Inr (b', pos') \<Rightarrow> pos' = pos + (if counted ch then 1 else 0)"
proof (cases "counted ch")
  case False
  then show ?thesis
    by (simp add: main_step_other)
next
  case True
  show ?thesis
  proof (cases "ch = CHR ''_''")
    case True
    then show ?thesis
      by (simp add: main_step_underscore increment_def and_then_def counted_def)
  next
    case False
    then have d: "isdigit (int (of_char ch))"
      using True by (simp add: counted_def)
    define dig where "dig = int (of_char ch) - 48"
    have dig: "0 \<le> dig" "dig \<le> 9"
      using d by (simp_all add: isdigit_def dig_def)
    have assign: "case Board_assign ndebug b pos dig of
                    Inl e \<Rightarrow> e = AssertionFailed DigInRange | Inr b' \<Rightarrow> True" if "pos < 81"
    proof (cases "ndebug \<or> 1 \<le> dig")
      case True
      then show ?thesis
        using assms that dig by (subst Board_assign_general) auto
    next
      case False
      then show ?thesis
        using assms that dig
        by (simp add: Board_assign_def check_assert_def and_then_def num_cells_def)
    qed
    show ?thesis
    proof (cases "pos < 81")
      case True
      then show ?thesis
        using assign [OF True] \<open>counted ch\<close>
        by (auto simp add: main_step_digit [OF d] and_then_def increment_def
            simp flip: dig_def split: sum.splits)
    next
      case False
      then show ?thesis
        using \<open>counted ch\<close>
        by (auto simp add: main_step_digit [OF d] and_then_def increment_def split: sum.splits)
    qed
  qed
qed

lemma main_loop_result:
  assumes "0 \<le> pos"
  shows "case main_loop ndebug input (b, pos) of
           Inl e \<Rightarrow> e = AssertionFailed DigInRange \<or> e = UndefinedBehaviour SignedOverflow
         | Inr (b', pos') \<Rightarrow> pos' = pos + int (length (filter counted input))"
  using assms
proof (induction input arbitrary: b pos)
  case Nil
  then show ?case by simp
next
  case (Cons ch input)
  show ?case
  proof (cases "main_step ndebug ch (b, pos)")
    case (Inl e)
    then show ?thesis
      using main_step_result [where ndebug = ndebug and ch = ch and b = b, OF Cons.prems] by (simp add: and_then_def)
  next
    case (Inr s)
    obtain b1 pos1 where s: "s = (b1, pos1)"
      by (cases s)
    have pos1: "pos1 = pos + (if counted ch then 1 else 0)"
      using main_step_result [where ndebug = ndebug and ch = ch and b = b, OF Cons.prems] Inr s by simp
    then have "0 \<le> pos1"
      using Cons.prems by simp
    then show ?thesis
      using Cons.IH [of pos1 b1] Inr s pos1
      by (auto simp add: and_then_Inr split: sum.splits)
  qed
qed

lemma show_int_1: "show_int 1 = ''1''"
  by code_simp

lemma show_int_2: "show_int 2 = ''2''"
  by code_simp

lemma for_loop_succeeds:
  assumes "\<And>i s. i \<in> set xs \<Longrightarrow> \<exists>s'. body i s = Inr s'"
  shows "\<exists>s'. for_loop xs body s = Inr s'"
  using assms
proof (induction xs arbitrary: s)
  case Nil
  then show ?case by simp
next
  case (Cons x xs)
  obtain t where t: "body x s = Inr t"
    using Cons.prems [of x s] by auto
  have "\<exists>s'. for_loop xs body t = Inr s'"
    using Cons.prems by (intro Cons.IH) simp
  then show ?case
    using t by (simp add: and_then_Inr)
qed

lemma Board_print_succeeds: "\<exists>out'. Board_print ndebug b out = Inr out'"
proof -
  have cell: "\<exists>s'. and_then (Board_cell_rc ndebug r c) (\<lambda>j.
               let x = cells b j;
                   out1 = (if assigned x \<noteq> 0 then s @ show_int (assigned x)
                           else s @ [CHR ''_''])
               in Inr (if c = 2 \<or> c = 5 then out1 @ [CHR '' ''] else out1)) = Inr s'"
    if "r \<in> set [0..8]" "c \<in> set [0..8]" for r c s
    using that by (simp add: Board_cell_rc_ok and_then_Inr Let_def)
  have row: "\<exists>s'. and_then
            (for_loop [0..8] (\<lambda>c out.
               and_then (Board_cell_rc ndebug r c) (\<lambda>j.
               let x = cells b j;
                   out1 = (if assigned x \<noteq> 0 then out @ show_int (assigned x)
                           else out @ [CHR ''_''])
               in Inr (if c = 2 \<or> c = 5 then out1 @ [CHR '' ''] else out1))) s)
            (\<lambda>out. Inr (out @ [newline])) = Inr s'"
    if "r \<in> set [0..8]" for r s
  proof -
    have "\<exists>t. for_loop [0..8] (\<lambda>c out.
               and_then (Board_cell_rc ndebug r c) (\<lambda>j.
               let x = cells b j;
                   out1 = (if assigned x \<noteq> 0 then out @ show_int (assigned x)
                           else out @ [CHR ''_''])
               in Inr (if c = 2 \<or> c = 5 then out1 @ [CHR '' ''] else out1))) s = Inr t"
      by (rule for_loop_succeeds) (rule cell [OF that])
    then show ?thesis
      by (auto simp add: and_then_Inr)
  qed
  have "\<exists>t. for_loop [0..8] (\<lambda>r out.
          and_then
            (for_loop [0..8] (\<lambda>c out.
               and_then (Board_cell_rc ndebug r c) (\<lambda>j.
               let x = cells b j;
                   out1 = (if assigned x \<noteq> 0 then out @ show_int (assigned x)
                           else out @ [CHR ''_''])
               in Inr (if c = 2 \<or> c = 5 then out1 @ [CHR '' ''] else out1))) out)
            (\<lambda>out. Inr (out @ [newline]))) out = Inr t"
    by (rule for_loop_succeeds) (rule row)
  then show ?thesis
    by (auto simp add: Board_print_def and_then_Inr)
qed

lemma print_each_succeeds: "\<exists>out'. print_each ndebug bs out = Inr out'"
proof (induction bs arbitrary: out)
  case Nil
  then show ?case by simp
next
  case (Cons b bs)
  obtain t where "Board_print ndebug b out = Inr t"
    using Board_print_succeeds by blast
  then show ?case
    using Cons.IH [of t] by (simp add: and_then_Inr)
qed

text \<open>
  C8. When the input is exhausted (the loop of \<open>main\<close> has returned), the counter is the
  number of underscores and digit characters of the input. If it is not 81, \<open>main\<close>
  throws \<open>std::runtime_error\<close> with the message "Invalid board: " and the counter, and
  nothing is searched or printed; if it is 81, \<open>find(0)\<close> runs on the board built and its
  emissions are printed.
\<close>

theorem cell_count_check:
  assumes "main_loop ndebug input (Board_init, 0) = Inr (b, pos)"
  shows "pos = int (length (filter counted input)) \<and>
         (pos \<noteq> 81 \<longrightarrow>
            main ndebug input = Inl (RuntimeError (''Invalid board: '' @ show_int pos))) \<and>
         (pos = 81 \<longrightarrow>
            (\<exists>emitted out. Board_find ndebug b 0 = Inr emitted \<and>
               print_each ndebug emitted [] = Inr out \<and> main ndebug input = Inr out))"
proof -
  have "pos = int (length (filter counted input))"
    using main_loop_result [where pos = 0 and ndebug = ndebug and input = input and b = Board_init] assms by simp
  moreover have "main ndebug input = Inl (RuntimeError (''Invalid board: '' @ show_int pos))"
    if "pos \<noteq> 81"
    using that assms by (simp add: main_def and_then_Inr num_cells_def)
  moreover have "\<exists>emitted out. Board_find ndebug b 0 = Inr emitted \<and>
               print_each ndebug emitted [] = Inr out \<and> main ndebug input = Inr out"
    if "pos = 81"
  proof -
    have f: "Board_find ndebug b 0 = Inr (search b 0)"
      using Board_find_search [of 0 ndebug b] by simp
    obtain out where out: "print_each ndebug (search b 0) [] = Inr out"
      using print_each_succeeds by blast
    have "main ndebug input = Inr out"
      using that assms by (simp add: main_def and_then_Inr num_cells_def f out)
    then show ?thesis
      using f out by blast
  qed
  ultimately show ?thesis
    by blast
qed

lemma main_loop_underscores:
  "pos + int n \<le> 2147483647
   \<Longrightarrow> main_loop ndebug (replicate n CHR ''_'') (b, pos) = Inr (b, pos + int n)"
proof (induction n arbitrary: pos)
  case 0
  then show ?case by simp
next
  case (Suc n)
  have "main_loop ndebug (replicate n CHR ''_'') (b, pos + 1) = Inr (b, pos + 1 + int n)"
    using Suc.prems by (intro Suc.IH) simp
  then show ?case
    using Suc.prems by (simp add: main_step_underscore increment_def and_then_Inr)
qed

theorem cell_count_check_witness:
  "(\<exists>out. main False (replicate 81 CHR ''_'') = Inr out) \<and>
   main False ''12'' = Inl (RuntimeError ''Invalid board: 2'')"
proof -
  have "main_loop False (replicate 81 CHR ''_'') (Board_init, 0) = Inr (Board_init, 81)"
    using main_loop_underscores [where pos = 0 and n = 81 and ndebug = False and b = Board_init] by simp
  then have "\<exists>out. main False (replicate 81 CHR ''_'') = Inr out"
    using cell_count_check [where ndebug = False and input = "replicate 81 CHR ''_''"
        and b = Board_init and pos = 81] by blast
  moreover obtain b where "main_loop False ''12'' (Board_init, 0) = Inr (b, 2)"
    by (simp add: main_step_digit isdigit_def Board_assign_after and_then_Inr increment_def)
  then have "main False ''12'' = Inl (RuntimeError ''Invalid board: 2'')"
    using cell_count_check [where ndebug = False and input = "''12''" and b = b and pos = 2]
    by (simp add: show_int_2)
  ultimately show ?thesis
    by blast
qed

lemma Board_assign_bad_pos:
  assumes "\<not> (0 \<le> pos \<and> pos < 81)"
  shows "Board_assign ndebug b pos dig =
         Inl (if ndebug then UndefinedBehaviour ArrayIndex else AssertionFailed PosInRange)"
proof (cases ndebug)
  case True
  have "Board_cell True pos = Inl (UndefinedBehaviour ArrayIndex)"
    using assms
    by (simp add: Board_cell_def check_assert_def subscript_def and_then_def num_cells_def)
  then show ?thesis
    using True by (simp add: Board_assign_def check_assert_def and_then_def Let_def)
next
  case False
  have "check_assert False PosInRange (0 \<le> pos \<and> pos < num_cells) =
        Inl (AssertionFailed PosInRange)"
    using assms by (simp add: check_assert_def num_cells_def)
  then show ?thesis
    using False by (simp add: Board_assign_def and_then_def)
qed

text \<open>
  The counter of \<open>main\<close> is an \<open>int\<close>. While fewer than \<open>2^31\<close> characters have been counted
  it stays in \<open>0..2^31-1\<close>: a digit met at a position of 81 or more only advances it, and
  the loop can fail by the digit assertion of \<open>assign\<close> alone.
\<close>

lemma and_then_assoc:
  "and_then (and_then m f) g = and_then m (\<lambda>x. and_then (f x) g)"
  by (cases m) (simp_all add: and_then_def)

lemma main_loop_append:
  "main_loop ndebug (xs @ ys) s = and_then (main_loop ndebug xs s) (main_loop ndebug ys)"
proof (induction xs arbitrary: s)
  case Nil
  then show ?case by (simp add: and_then_Inr)
next
  case (Cons x xs)
  have "main_loop ndebug (xs @ ys) = (\<lambda>t. and_then (main_loop ndebug xs t) (main_loop ndebug ys))"
    by (rule ext) (rule Cons.IH)
  then show ?case
    by (simp add: and_then_assoc)
qed

lemma digit_beyond_board:
  assumes "isdigit (int (of_char ch))" "81 \<le> pos" "pos < 2147483647"
  shows "main_step ndebug ch (b, pos) = Inr (b, pos + 1)"
  using assms by (simp add: main_step_digit and_then_Inr increment_def)

lemma main_step_below_overflow:
  assumes "0 \<le> pos" "pos < 2147483647" "main_step ndebug ch (b, pos) = Inl e"
  shows "e = AssertionFailed DigInRange"
proof (cases "counted ch")
  case False
  then show ?thesis
    using assms(3) by (simp add: main_step_other)
next
  case True
  show ?thesis
  proof (cases "ch = CHR ''_''")
    case True
    then show ?thesis
      using assms by (simp add: main_step_underscore increment_def and_then_Inr)
  next
    case False
    then have d: "isdigit (int (of_char ch))"
      using True by (simp add: counted_def)
    define dig where "dig = int (of_char ch) - 48"
    have dig: "0 \<le> dig" "dig \<le> 9"
      using d by (simp_all add: isdigit_def dig_def)
    have step: "main_step ndebug ch (b, pos) =
                and_then (if pos < 81 then Board_assign ndebug b pos dig else Inr b)
                  (\<lambda>b'. Inr (b', pos + 1))"
      using assms(2) by (simp add: main_step_digit [OF d] increment_def and_then_Inr dig_def)
    show ?thesis
    proof (cases "pos < 81")
      case False
      then show ?thesis
        using assms(3) by (simp add: step and_then_Inr)
    next
      case True
      show ?thesis
      proof (cases "ndebug \<or> 1 \<le> dig")
        case True
        have "Board_assign ndebug b pos dig =
              Inr (forbid_set (unit_cells (nat pos)) dig (set_assigned (nat pos) dig b))"
          using assms(1) \<open>pos < 81\<close> True dig by (intro Board_assign_general) auto
        then show ?thesis
          using assms(3) \<open>pos < 81\<close> by (simp add: step and_then_Inr)
      next
        case False
        then have "Board_assign ndebug b pos dig = Inl (AssertionFailed DigInRange)"
          using assms(1) \<open>pos < 81\<close>
          by (simp add: Board_assign_def check_assert_def and_then_def num_cells_def)
        then show ?thesis
          using assms(3) \<open>pos < 81\<close> by (simp add: step and_then_def)
      qed
    qed
  qed
qed

lemma main_loop_below_overflow:
  assumes "0 \<le> pos" "pos + int (length (filter counted input)) \<le> 2147483647"
    "main_loop ndebug input (b, pos) = Inl e"
  shows "e = AssertionFailed DigInRange"
  using assms
proof (induction input arbitrary: b pos)
  case Nil
  then show ?case by simp
next
  case (Cons ch input)
  show ?case
  proof (cases "main_step ndebug ch (b, pos)")
    case (Inl e')
    then have e': "e' = e"
      using Cons.prems(3) by (simp add: and_then_def)
    show ?thesis
    proof (cases "pos < 2147483647")
      case True
      then show ?thesis
        using main_step_below_overflow [OF Cons.prems(1) _ Inl] e' by simp
    next
      case False
      then have "\<not> counted ch"
        using Cons.prems(2) by (auto split: if_splits)
      then show ?thesis
        using Inl by (simp add: main_step_other)
    qed
  next
    case (Inr s)
    obtain b1 pos1 where s: "s = (b1, pos1)"
      by (cases s)
    have pos1: "pos1 = pos + (if counted ch then 1 else 0)"
      using main_step_result [where ndebug = ndebug and ch = ch and b = b, OF Cons.prems(1)]
        Inr s by simp
    have "main_loop ndebug input (b1, pos1) = Inl e"
      using Cons.prems(3) Inr s by (simp add: and_then_Inr)
    moreover have "0 \<le> pos1" "pos1 + int (length (filter counted input)) \<le> 2147483647"
      using Cons.prems(1,2) pos1 by (auto split: if_splits)
    ultimately show ?thesis
      using Cons.IH [of pos1 b1] by simp
  qed
qed

lemma big_input:
  "replicate 2147483648 CHR ''_'' @ ''1'' =
   replicate 2147483647 CHR ''_'' @ [CHR ''_'', CHR ''1'']"
proof -
  have "(2147483648 :: nat) = 2147483647 + 1"
    by simp
  then have "replicate 2147483648 CHR ''_'' = replicate 2147483647 CHR ''_'' @ [CHR ''_'']"
    by (simp only: replicate_add) simp
  then show ?thesis
    by simp
qed

text \<open>
  C10 fails on a stream with \<open>2^31\<close> counted characters followed by a digit. The
  \<open>2^31\<close>-th \<open>++pos\<close> increments \<open>INT_MAX\<close>, which the language leaves without a meaning, so
  the run of the program is no longer constrained at all. Where the increment wraps, the
  counter becomes \<open>-2^31\<close>; the only guard before \<open>assign\<close> is \<open>pos < num_cells\<close>, which a
  negative counter passes, so the digit calls \<open>assign\<close> with the position \<open>-2^31\<close>: the
  assertion \<open>pos >= 0 && pos < num_cells\<close> of \<open>assign\<close> fails, and with \<open>NDEBUG\<close> the cell is
  taken outside the array.
\<close>

theorem counter_overflow_unguarded:
  "main False (replicate 2147483648 CHR ''_'' @ ''1'') =
     Inl (UndefinedBehaviour SignedOverflow) \<and>
   main True (replicate 2147483648 CHR ''_'' @ ''1'') =
     Inl (UndefinedBehaviour SignedOverflow) \<and>
   main_step False CHR ''1'' (Board_init, - 2147483648) = Inl (AssertionFailed PosInRange) \<and>
   main_step True CHR ''1'' (Board_init, - 2147483648) = Inl (UndefinedBehaviour ArrayIndex)"
proof -
  have loop: "main_loop ndebug (replicate 2147483648 CHR ''_'' @ ''1'') (Board_init, 0) =
              Inl (UndefinedBehaviour SignedOverflow)" for ndebug
  proof -
    have "main_loop ndebug (replicate 2147483647 CHR ''_'') (Board_init, 0) =
          Inr (Board_init, 2147483647)"
      using main_loop_underscores [where pos = 0 and n = 2147483647 and ndebug = ndebug
          and b = Board_init] by simp
    moreover have "main_loop ndebug [CHR ''_'', CHR ''1''] (Board_init, 2147483647) =
          Inl (UndefinedBehaviour SignedOverflow)"
      by (simp add: main_step_underscore increment_def and_then_def)
    ultimately show ?thesis
      unfolding big_input main_loop_append by (simp add: and_then_Inr)
  qed
  have step: "main_step ndebug CHR ''1'' (Board_init, - 2147483648) =
              Inl (if ndebug then UndefinedBehaviour ArrayIndex else AssertionFailed PosInRange)"
    for ndebug
    by (simp add: main_step_digit isdigit_def Board_assign_bad_pos and_then_def)
  have run: "main ndebug (replicate 2147483648 CHR ''_'' @ ''1'') =
             Inl (UndefinedBehaviour SignedOverflow)" for ndebug
    unfolding main_def by (simp only: loop) (simp add: and_then_def)
  show ?thesis
    using run [of False] run [of True] step [of False] step [of True] by simp
qed

text \<open>
  C7 fails at the character \<open>0\<close>: \<open>isdigit\<close> accepts it, so it is not ignored. The
  parser calls \<open>assign(pos, 0)\<close>, against the assertion \<open>dig >= 1 && dig <= 9\<close> of
  \<open>assign\<close>: a build with assertions aborts, a build with \<open>-DNDEBUG\<close> counts the
  character as a cell. On the input "0" the claim predicts the message
  "Invalid board: 0".
\<close>

theorem zero_digit_is_counted:
  "main False ''0'' = Inl (AssertionFailed DigInRange) \<and>
   main True ''0'' = Inl (RuntimeError ''Invalid board: 1'')"
proof -
  have "main_loop False ''0'' (Board_init, 0) = Inl (AssertionFailed DigInRange)"
    by (simp add: main_step_digit isdigit_def Board_assign_def check_assert_def and_then_def
        num_cells_def)
  moreover have "\<exists>b. main_loop True ''0'' (Board_init, 0) = Inr (b, 1)"
    by (simp add: main_step_digit isdigit_def Board_assign_general and_then_Inr increment_def)
  ultimately show ?thesis
    by (auto simp add: main_def and_then_def num_cells_def show_int_1)
qed

end
